theory Spec2Isabelle
  imports Main
begin

section \<open>Errors, promises and strings\<close>

text \<open>
  The model follows \<open>src/common/DOMWorld.ts\<close>.  JavaScript runs the host code on one
  event loop: a method body runs to its next \<open>await\<close> without interruption, and what
  follows an \<open>await\<close> runs later, as an event of its own.  A method is therefore a
  function on the state of the world, and every \<open>await\<close> splits an \<open>async\<close> method
  into the part before it and a continuation that an event resumes.
\<close>

datatype error = Error string | TimeoutError string | TypeError string

fun message :: "error \<Rightarrow> string" where
  "message (Error m) = m"
| "message (TimeoutError m) = m"
| "message (TypeError m) = m"

text \<open>A promise is settled at most once: settling a settled promise changes nothing.\<close>

datatype 'a promise = Pending | Fulfilled 'a | Rejected error

fun fulfill :: "'a \<Rightarrow> 'a promise \<Rightarrow> 'a promise" where
  "fulfill v Pending = Fulfilled v"
| "fulfill v p = p"

fun reject :: "error \<Rightarrow> 'a promise \<Rightarrow> 'a promise" where
  "reject e Pending = Rejected e"
| "reject e p = p"

text \<open>\<open>String.prototype.includes\<close>.\<close>

fun startsWith :: "string \<Rightarrow> string \<Rightarrow> bool" where
  "startsWith s [] = True"
| "startsWith [] (c # cs) = False"
| "startsWith (x # xs) (c # cs) = (x = c \<and> startsWith xs cs)"

fun str_includes :: "string \<Rightarrow> string \<Rightarrow> bool" where
  "str_includes [] sub = (sub = [])"
| "str_includes (x # xs) sub = (startsWith (x # xs) sub \<or> str_includes xs sub)"

text \<open>
  A number inside a template literal or after \<open>+\<close> on a string is printed in decimal.
  Durations and intervals are modelled as integers (milliseconds).
\<close>

definition digit :: "nat \<Rightarrow> char" where
  "digit d = ''0123456789'' ! d"

function numeral_string :: "nat \<Rightarrow> string" where
  "numeral_string n =
     (if n < 10 then [digit n] else numeral_string (n div 10) @ [digit (n mod 10)])"
  by pat_completeness auto
termination
  by (relation "measure id") auto

declare numeral_string.simps [simp del]

definition numberToString :: "int \<Rightarrow> string" where
  "numberToString i =
     (if i < 0 then CHR ''-'' # numeral_string (nat (- i)) else numeral_string (nat i))"

section \<open>The world and its wait tasks\<close>

text \<open>
  Objects are named by their index in a store: an execution context and a \<open>JSHandle\<close> by a
  number the browser side chooses, a context promise by its index in \<open>promises\<close>, a
  \<open>WaitTask\<close> by its index in \<open>tasks\<close>.
\<close>

type_synonym execution_context = nat
type_synonym handle = nat

text \<open>
  The \<open>polling\<close> argument is a string, a number, or something else; the predicate is
  a string or a function (kept as its source text).
\<close>

datatype polling = PollString string | PollNumber int | PollOther string

datatype predicate = PredicateString string | PredicateFunction string

record wait_task =
  polling :: polling
  timeout :: int
  predicateBody :: string
  args :: "string list"
  runCount :: nat
  promise :: "handle promise"
  timeoutTimer :: "error option"
  terminated :: bool

text \<open>
  \<open>timeoutTimer\<close> is the armed timer together with the error its callback passes to
  \<open>terminate\<close>; \<open>None\<close> is a timer that was never set, was cleared, or has fired.

  An invocation of \<open>rerun\<close> that is suspended at an \<open>await\<close> is remembered with the local
  variables it needs when it resumes: its task, its \<open>runCount\<close>, and either the promise that
  \<open>executionContext()\<close> returned (it waits for the context and then for the answer to
  \<open>evaluateHandle\<close>) or the handle whose falsiness is being evaluated.
\<close>

datatype await = AwaitEvaluate nat nat "nat option" | AwaitFalsy nat nat handle

record dom_world =
  frame_url :: string
  timeoutSettings :: int
  documentPromise :: "nat option"
  contextPromise :: "nat option"
  contextResolveCallback :: "nat option"
  detached :: bool
  waitTasks :: "nat list"
  promises :: "execution_context promise list"
  tasks :: "wait_task list"
  pending :: "await list"
  disposed :: "handle list"

text \<open>
  \<open>frame_url\<close> is what \<open>this._frame.url()\<close> returns and \<open>timeoutSettings\<close> what
  \<open>this._timeoutSettings.timeout()\<close> returns.  \<open>contextResolveCallback\<close> is the
  \<open>fulfill\<close> function of a context promise, named by that promise.  \<open>documentPromise\<close>
  is the promise \<open>executionContext().then(...)\<close>, named by the context promise it is chained
  on.  \<open>waitTasks\<close> is the \<open>Set\<close> in insertion order.  \<open>disposed\<close> lists the handles on
  which \<open>dispose()\<close> was called.
\<close>

definition upd_task :: "nat \<Rightarrow> (wait_task \<Rightarrow> wait_task) \<Rightarrow> dom_world \<Rightarrow> dom_world" where
  "upd_task t f w = w\<lparr>tasks := (tasks w)[t := f (tasks w ! t)]\<rparr>"

definition dispose :: "handle \<Rightarrow> dom_world \<Rightarrow> dom_world" where
  "dispose h w = w\<lparr>disposed := h # disposed w\<rparr>"

subsection \<open>DOMWorld\<close>

definition executionContext :: "dom_world \<Rightarrow> error + nat option" where
  "executionContext w =
     (if detached w
      then Inl (Error (''Execution Context is not available in detached frame '' @ [CHR 0x22]
             @ frame_url w @ [CHR 0x22] @ '' (are you trying to evaluate?)''))
      else Inr (contextPromise w))"

definition hasContext :: "dom_world \<Rightarrow> bool" where
  "hasContext w = (contextResolveCallback w = None)"

subsection \<open>WaitTask\<close>

definition cleanup :: "nat \<Rightarrow> dom_world \<Rightarrow> dom_world" where
  "cleanup t w =
     (upd_task t (\<lambda>k. k\<lparr>timeoutTimer := None\<rparr>) w)\<lparr>waitTasks := removeAll t (waitTasks w)\<rparr>"

definition terminate :: "nat \<Rightarrow> error \<Rightarrow> dom_world \<Rightarrow> dom_world" where
  "terminate t e w =
     cleanup t (upd_task t (\<lambda>k. k\<lparr>promise := reject e (promise k)\<rparr>)
                 (upd_task t (\<lambda>k. k\<lparr>terminated := True\<rparr>) w))"

text \<open>
  \<open>rerun\<close>, in four parts.  \<open>rerun_settle\<close> is the end of the method (from the test for a
  destroyed context on); \<open>r\<close> is the error or the handle of the \<open>try\<close> block.
\<close>

definition rerun_settle :: "nat \<Rightarrow> error + handle \<Rightarrow> dom_world \<Rightarrow> dom_world" where
  "rerun_settle t r w =
     (case r of
        Inl e \<Rightarrow>
          if str_includes (message e) ''Execution context was destroyed'' then w
          else if str_includes (message e) ''Cannot find context with specified id'' then w
          else cleanup t (upd_task t (\<lambda>k. k\<lparr>promise := reject e (promise k)\<rparr>) w)
      | Inr h \<Rightarrow> cleanup t (upd_task t (\<lambda>k. k\<lparr>promise := fulfill h (promise k)\<rparr>) w))"

text \<open>
  \<open>rerun_falsy\<close> resumes after
  \<open>await this._domWorld.evaluate((s) => !s, success).catch(() => true)\<close>; \<open>outcome\<close> is how the
  promise of \<open>evaluate\<close> settled.
\<close>

definition rerun_falsy :: "nat \<Rightarrow> handle \<Rightarrow> error + bool \<Rightarrow> dom_world \<Rightarrow> dom_world" where
  "rerun_falsy t h outcome w =
     (if (case outcome of Inl e \<Rightarrow> True | Inr b \<Rightarrow> b) then dispose h w
      else rerun_settle t (Inr h) w)"

text \<open>
  \<open>rerun_resume\<close> resumes after the \<open>try\<close> block, with the local \<open>runCount\<close> as \<open>n\<close>.
  With an error the condition \<open>!error && ...\<close> is false without an \<open>await\<close>, and the method
  runs to its end.
\<close>

definition rerun_resume :: "nat \<Rightarrow> nat \<Rightarrow> error + handle \<Rightarrow> dom_world \<Rightarrow> dom_world" where
  "rerun_resume t n r w =
     (if terminated (tasks w ! t) \<or> n \<noteq> runCount (tasks w ! t)
      then (case r of Inl e \<Rightarrow> w | Inr h \<Rightarrow> dispose h w)
      else (case r of
              Inl e \<Rightarrow> rerun_settle t (Inl e) w
            | Inr h \<Rightarrow> w\<lparr>pending := pending w @ [AwaitFalsy t n h]\<rparr>))"

text \<open>
  The part of \<open>rerun\<close> that runs at the call.  \<open>executionContext()\<close> throws inside the
  \<open>try\<close> block when the world is detached, and then nothing is awaited.
\<close>

definition rerun :: "nat \<Rightarrow> dom_world \<Rightarrow> dom_world" where
  "rerun t w =
     (let w1 = upd_task t (\<lambda>k. k\<lparr>runCount := Suc (runCount k)\<rparr>) w;
          n = runCount (tasks w1 ! t)
      in case executionContext w1 of
           Inl e \<Rightarrow> rerun_resume t n (Inl e) w1
         | Inr p \<Rightarrow> w1\<lparr>pending := pending w1 @ [AwaitEvaluate t n p]\<rparr>)"

definition getPredicateBody :: "predicate \<Rightarrow> string" where
  "getPredicateBody p =
     (case p of
        PredicateString s \<Rightarrow> ''return ('' @ s @ '');''
      | PredicateFunction f \<Rightarrow> ''return ('' @ f @ '')(...args);'')"

definition check_polling :: "polling \<Rightarrow> error option" where
  "check_polling p =
     (case p of
        PollString s \<Rightarrow>
          if s = ''raf'' \<or> s = ''mutation'' then None
          else Some (Error (''Unknown polling option: '' @ s))
      | PollNumber i \<Rightarrow>
          if i > 0 then None
          else Some (Error (''Cannot poll with non-positive interval: '' @ numberToString i))
      | PollOther s \<Rightarrow> Some (Error (''Unknown polling options: '' @ s)))"

definition timeoutMessage :: "string \<Rightarrow> int \<Rightarrow> string" where
  "timeoutMessage title ms =
     ''waiting for '' @ title @ '' failed: timeout '' @ numberToString ms @ ''ms exceeded''"

text \<open>The constructor: the new task's name and the world after it, or the error thrown.\<close>

definition WaitTask ::
  "predicate \<Rightarrow> string \<Rightarrow> polling \<Rightarrow> int \<Rightarrow> string list \<Rightarrow> dom_world \<Rightarrow> error + nat \<times> dom_world" where
  "WaitTask body title poll ms as w =
     (case check_polling poll of
        Some e \<Rightarrow> Inl e
      | None \<Rightarrow>
          let t = length (tasks w);
              w1 = w\<lparr>tasks := tasks w @
                      [\<lparr>polling = poll, timeout = ms, predicateBody = getPredicateBody body,
                        args = as, runCount = 0, promise = Pending, timeoutTimer = None,
                        terminated = False\<rparr>],
                     waitTasks := (if t \<in> set (waitTasks w) then waitTasks w
                                   else waitTasks w @ [t])\<rparr>;
              w2 = (if ms \<noteq> 0
                    then upd_task t
                           (\<lambda>k. k\<lparr>timeoutTimer := Some (TimeoutError (timeoutMessage title ms))\<rparr>) w1
                    else w1)
          in Inr (t, rerun t w2))"

subsection \<open>DOMWorld, continued\<close>

definition setContext :: "execution_context option \<Rightarrow> dom_world \<Rightarrow> error + dom_world" where
  "setContext c w =
     (case c of
        Some ctx \<Rightarrow>
          (case contextResolveCallback w of
             None \<Rightarrow> Inl (TypeError ''Cannot read property call of null'')
           | Some p \<Rightarrow>
               Inr (fold rerun (waitTasks w)
                      (w\<lparr>promises := (promises w)[p := fulfill ctx (promises w ! p)],
                         contextResolveCallback := None\<rparr>)))
      | None \<Rightarrow>
          Inr (w\<lparr>documentPromise := None,
                 contextPromise := Some (length (promises w)),
                 contextResolveCallback := Some (length (promises w)),
                 promises := promises w @ [Pending]\<rparr>))"

definition detach :: "dom_world \<Rightarrow> dom_world" where
  "detach w =
     fold (\<lambda>t. terminate t (Error ''waitForFunction failed: frame got detached.''))
       (waitTasks w) (w\<lparr>detached := True\<rparr>)"

text \<open>
  \<open>_document\<close> is \<open>async\<close>: an error thrown in it rejects the promise it returns.  The
  result is that error, or the cached promise.
\<close>

definition document :: "dom_world \<Rightarrow> (error + nat) \<times> dom_world" where
  "document w =
     (case documentPromise w of
        Some d \<Rightarrow> (Inr d, w)
      | None \<Rightarrow>
          (case executionContext w of
             Inl e \<Rightarrow> (Inl e, w)
           | Inr None \<Rightarrow> (Inl (TypeError ''Cannot read property then of null''), w)
           | Inr (Some p) \<Rightarrow> (Inr p, w\<lparr>documentPromise := Some p\<rparr>)))"

text \<open>The context in which a document promise evaluates \<open>document\<close>, once it can.\<close>

definition document_context :: "dom_world \<Rightarrow> nat \<Rightarrow> execution_context option" where
  "document_context w d =
     (if d < length (promises w)
      then (case promises w ! d of Fulfilled c \<Rightarrow> Some c | _ \<Rightarrow> None)
      else None)"

definition waitForFunction ::
  "predicate \<Rightarrow> polling option \<Rightarrow> int option \<Rightarrow> string list \<Rightarrow> dom_world \<Rightarrow> error + nat \<times> dom_world" where
  "waitForFunction pageFunction poll ms as w =
     WaitTask pageFunction ''function''
       (case poll of None \<Rightarrow> PollString ''raf'' | Some p \<Rightarrow> p)
       (case ms of None \<Rightarrow> timeoutSettings w | Some m \<Rightarrow> m) as w"

text \<open>The constructor of \<open>DOMWorld\<close>: the field initialisers, then \<open>_setContext(null)\<close>.\<close>

definition DOMWorld :: "string \<Rightarrow> int \<Rightarrow> dom_world" where
  "DOMWorld url ts =
     \<lparr>frame_url = url, timeoutSettings = ts, documentPromise = None,
      contextPromise = Some 0, contextResolveCallback = Some 0, detached = False,
      waitTasks = [], promises = [Pending], tasks = [], pending = [], disposed = []\<rparr>"

section \<open>Events\<close>

text \<open>
  What can happen to a world: a call from outside (\<open>_setContext\<close>, \<open>_detach\<close>,
  \<open>_document\<close>, a new \<open>WaitTask\<close>), a timeout timer firing, and a suspended \<open>rerun\<close>
  resuming.  The answer to \<open>evaluateHandle\<close> can only arrive once the awaited context
  promise is fulfilled; awaiting \<open>null\<close> makes the call on it throw a \<open>TypeError\<close>.
  A call that throws leaves the world as it was.
\<close>

datatype event =
    SetContext "execution_context option"
  | Detach
  | Document
  | NewWaitTask predicate string polling int "string list"
  | TimerFired nat
  | EvaluateSettled nat nat "nat option" "error + handle"
  | FalsySettled nat nat handle "error + bool"

definition evaluate_ready :: "dom_world \<Rightarrow> nat option \<Rightarrow> error + handle \<Rightarrow> bool" where
  "evaluate_ready w p r =
     (case p of
        None \<Rightarrow> r = Inl (TypeError ''Cannot read property evaluateHandle of null'')
      | Some q \<Rightarrow>
          q < length (promises w) \<and>
          (case promises w ! q of Fulfilled c \<Rightarrow> True | _ \<Rightarrow> False))"

fun step :: "event \<Rightarrow> dom_world \<Rightarrow> dom_world" where
  "step (SetContext c) w = (case setContext c w of Inl e \<Rightarrow> w | Inr w' \<Rightarrow> w')"
| "step Detach w = detach w"
| "step Document w = snd (document w)"
| "step (NewWaitTask body title poll ms as) w =
     (case WaitTask body title poll ms as w of Inl e \<Rightarrow> w | Inr (t, w') \<Rightarrow> w')"
| "step (TimerFired t) w =
     (if t < length (tasks w)
      then (case timeoutTimer (tasks w ! t) of None \<Rightarrow> w | Some e \<Rightarrow> terminate t e w)
      else w)"
| "step (EvaluateSettled t n p r) w =
     (if AwaitEvaluate t n p \<in> set (pending w) \<and> evaluate_ready w p r
      then rerun_resume t n r (w\<lparr>pending := remove1 (AwaitEvaluate t n p) (pending w)\<rparr>)
      else w)"
| "step (FalsySettled t n h outcome) w =
     (if AwaitFalsy t n h \<in> set (pending w)
      then rerun_falsy t h outcome (w\<lparr>pending := remove1 (AwaitFalsy t n h) (pending w)\<rparr>)
      else w)"

definition run :: "event list \<Rightarrow> dom_world \<Rightarrow> dom_world" where
  "run es w = fold step es w"

inductive reachable :: "dom_world \<Rightarrow> bool" where
  created: "reachable (DOMWorld url ts)"
| stepped: "reachable w \<Longrightarrow> reachable (step e w)"

section \<open>Invariants\<close>

text \<open>The fields that only \<open>_setContext\<close>, \<open>_detach\<close> and \<open>_document\<close> write.\<close>

definition same_context :: "dom_world \<Rightarrow> dom_world \<Rightarrow> bool" where
  "same_context w w' =
     (frame_url w' = frame_url w \<and> timeoutSettings w' = timeoutSettings w \<and>
      documentPromise w' = documentPromise w \<and> contextPromise w' = contextPromise w \<and>
      contextResolveCallback w' = contextResolveCallback w \<and> detached w' = detached w \<and>
      promises w' = promises w)"

text \<open>
  A registered task is pending and not terminated; an armed timer belongs to a registered
  task; the set holds no task twice.
\<close>

definition tasks_ok :: "dom_world \<Rightarrow> bool" where
  "tasks_ok w =
     (distinct (waitTasks w) \<and>
      (\<forall>t \<in> set (waitTasks w). t < length (tasks w) \<and> promise (tasks w ! t) = Pending \<and>
          \<not> terminated (tasks w ! t)) \<and>
      (\<forall>t < length (tasks w). timeoutTimer (tasks w ! t) \<noteq> None \<longrightarrow> t \<in> set (waitTasks w)))"

text \<open>
  The world has a current context promise; the resolve callback, when there is one, belongs
  to it and the promise is pending; with no callback the promise is fulfilled; a cached
  document promise is chained on it.
\<close>

definition context_ok :: "dom_world \<Rightarrow> bool" where
  "context_ok w =
     (\<exists>p. contextPromise w = Some p \<and> p < length (promises w) \<and>
          (\<forall>q. contextResolveCallback w = Some q \<longrightarrow> q = p \<and> promises w ! p = Pending) \<and>
          (contextResolveCallback w = None \<longrightarrow> (\<exists>c. promises w ! p = Fulfilled c)) \<and>
          (\<forall>d. documentPromise w = Some d \<longrightarrow> d = p))"

text \<open>No context promise is rejected: the code keeps only their \<open>fulfill\<close> callback.\<close>

definition never_rejected :: "dom_world \<Rightarrow> bool" where
  "never_rejected w = (\<forall>p < length (promises w). \<forall>e. promises w ! p \<noteq> Rejected e)"

text \<open>
  What can become of a task: its timer can only be cleared, it stays terminated, and a
  settled promise stays as it is.  No task is ever dropped from the store.
\<close>

definition task_later :: "wait_task \<Rightarrow> wait_task \<Rightarrow> bool" where
  "task_later k k' =
     ((timeoutTimer k' = None \<or> timeoutTimer k' = timeoutTimer k) \<and>
      (terminated k \<longrightarrow> terminated k') \<and>
      (promise k \<noteq> Pending \<longrightarrow> promise k' = promise k))"

definition world_later :: "dom_world \<Rightarrow> dom_world \<Rightarrow> bool" where
  "world_later w w' =
     (length (tasks w) \<le> length (tasks w') \<and>
      (\<forall>t < length (tasks w). task_later (tasks w ! t) (tasks w' ! t)))"

section \<open>The poll loop in the page\<close>

text \<open>
  \<open>waitForPredicatePageFunction\<close> runs in the page.  A value of the page is modelled as
  far as its truthiness needs; \<open>JSUndefined\<close> is what \<open>fulfill()\<close> without an argument
  passes.
\<close>

datatype js_value =
  JSUndefined | JSNull | JSBoolean bool | JSNumber int | JSString string | JSObject nat

fun truthy :: "js_value \<Rightarrow> bool" where
  "truthy JSUndefined = False"
| "truthy JSNull = False"
| "truthy (JSBoolean b) = b"
| "truthy (JSNumber i) = (i \<noteq> 0)"
| "truthy (JSString s) = (s \<noteq> [])"
| "truthy (JSObject a) = True"

text \<open>
  The state of one invocation: the \<open>polling\<close> argument, the flag \<open>timedOut\<close>, whether the
  timer that sets it is still to fire, the promise the function returned, whether the
  \<open>MutationObserver\<close> is connected, and whether a callback of \<open>requestAnimationFrame\<close> or
  \<open>setTimeout\<close> is scheduled.
\<close>

record poll_state =
  strategy :: polling
  timedOut :: bool
  timerSet :: bool
  result :: "js_value promise"
  observing :: bool
  scheduled :: bool

text \<open>
  An evaluation of the predicate throws or returns a value; \<open>await predicate(...args)\<close> is
  taken as one step, so the outcome is an argument of the function that evaluates it.
\<close>

definition pollMutation :: "error + js_value \<Rightarrow> poll_state \<Rightarrow> poll_state" where
  "pollMutation first s =
     (case first of
        Inl e \<Rightarrow> s\<lparr>result := reject e (result s)\<rparr>
      | Inr success \<Rightarrow>
          if truthy success then s\<lparr>result := fulfill success (result s)\<rparr>
          else s\<lparr>observing := True\<rparr>)"

text \<open>The callback of the observer; an error thrown in it is lost.\<close>

definition observer_callback :: "error + js_value \<Rightarrow> poll_state \<Rightarrow> poll_state" where
  "observer_callback outcome s =
     (let s1 = (if timedOut s
                then s\<lparr>observing := False, result := fulfill JSUndefined (result s)\<rparr>
                else s)
      in case outcome of
           Inl e \<Rightarrow> s1
         | Inr success \<Rightarrow>
             if truthy success
             then s1\<lparr>observing := False, result := fulfill success (result s1)\<rparr>
             else s1)"

text \<open>\<open>onRaf\<close> and \<open>onTimeout\<close>: the error thrown, if any, and the state.\<close>

definition onRaf :: "error + js_value \<Rightarrow> poll_state \<Rightarrow> error option \<times> poll_state" where
  "onRaf outcome s =
     (if timedOut s then (None, s\<lparr>result := fulfill JSUndefined (result s)\<rparr>)
      else (case outcome of
              Inl e \<Rightarrow> (Some e, s)
            | Inr success \<Rightarrow>
                if truthy success then (None, s\<lparr>result := fulfill success (result s)\<rparr>)
                else (None, s\<lparr>scheduled := True\<rparr>)))"

definition pollRaf :: "error + js_value \<Rightarrow> poll_state \<Rightarrow> poll_state" where
  "pollRaf first s =
     (case onRaf first s of
        (Some e, s') \<Rightarrow> s'\<lparr>result := reject e (result s')\<rparr>
      | (None, s') \<Rightarrow> s')"

definition onTimeout :: "error + js_value \<Rightarrow> poll_state \<Rightarrow> error option \<times> poll_state" where
  "onTimeout outcome s =
     (if timedOut s then (None, s\<lparr>result := fulfill JSUndefined (result s)\<rparr>)
      else (case outcome of
              Inl e \<Rightarrow> (Some e, s)
            | Inr success \<Rightarrow>
                if truthy success then (None, s\<lparr>result := fulfill success (result s)\<rparr>)
                else (None, s\<lparr>scheduled := True\<rparr>)))"

definition pollInterval :: "error + js_value \<Rightarrow> poll_state \<Rightarrow> poll_state" where
  "pollInterval first s =
     (case onTimeout first s of
        (Some e, s') \<Rightarrow> s'\<lparr>result := reject e (result s')\<rparr>
      | (None, s') \<Rightarrow> s')"

text \<open>
  The call: the state when the function has run to its first suspension.  With a \<open>polling\<close>
  that is none of the three, the function returns \<open>undefined\<close>.
\<close>

definition waitForPredicatePageFunction :: "polling \<Rightarrow> int \<Rightarrow> error + js_value \<Rightarrow> poll_state" where
  "waitForPredicatePageFunction poll ms first =
     (let s = \<lparr>strategy = poll, timedOut = False, timerSet = (ms \<noteq> 0), result = Pending,
                observing = False, scheduled = False\<rparr>
      in case poll of
           PollString p \<Rightarrow>
             if p = ''raf'' then pollRaf first s
             else if p = ''mutation'' then pollMutation first s
             else s\<lparr>result := Fulfilled JSUndefined\<rparr>
         | PollNumber i \<Rightarrow> pollInterval first s
         | PollOther x \<Rightarrow> s\<lparr>result := Fulfilled JSUndefined\<rparr>)"

text \<open>
  What happens in the page afterwards: the timer fires, or the browser runs the callback the
  loop waits for (a frame, an interval, a batch of mutations), with the outcome of the
  predicate should the callback evaluate it.
\<close>

datatype poll_event = TimeoutElapsed | Callback "error + js_value"

fun poll_step :: "poll_event \<Rightarrow> poll_state \<Rightarrow> poll_state" where
  "poll_step TimeoutElapsed s =
     (if timerSet s then s\<lparr>timedOut := True, timerSet := False\<rparr> else s)"
| "poll_step (Callback outcome) s =
     (case strategy s of
        PollString p \<Rightarrow>
          if p = ''raf''
          then (if scheduled s then snd (onRaf outcome (s\<lparr>scheduled := False\<rparr>)) else s)
          else if p = ''mutation''
          then (if observing s then observer_callback outcome s else s)
          else s
      | PollNumber i \<Rightarrow>
          if scheduled s then snd (onTimeout outcome (s\<lparr>scheduled := False\<rparr>)) else s
      | PollOther x \<Rightarrow> s)"

definition poll_run :: "poll_event list \<Rightarrow> poll_state \<Rightarrow> poll_state" where
  "poll_run es s = fold poll_step es s"

text \<open>
  What holds of every state of the loop: a fulfilment is a truthy value, or the empty
  sentinel with the flag set; a rejection is the error of the first evaluation.
\<close>

definition poll_ok :: "error + js_value \<Rightarrow> poll_state \<Rightarrow> bool" where
  "poll_ok first s =
     ((\<forall>v. result s = Fulfilled v \<longrightarrow> truthy v \<or> (v = JSUndefined \<and> timedOut s)) \<and>
      (\<forall>e. result s = Rejected e \<longrightarrow> first = Inl e))"

text \<open>The observer is used by the mutation strategy only, scheduled callbacks by the others.\<close>

definition poll_mode_ok :: "poll_state \<Rightarrow> bool" where
  "poll_mode_ok s =
     (if strategy s = PollString ''mutation'' then \<not> scheduled s else \<not> observing s)"

section \<open>Lemmas about the world\<close>

lemma DOMWorld_constructor:
  "setContext None
     \<lparr>frame_url = url, timeoutSettings = ts, documentPromise = None, contextPromise = None,
      contextResolveCallback = None, detached = False, waitTasks = [], promises = [],
      tasks = [], pending = [], disposed = []\<rparr> = Inr (DOMWorld url ts)"
  by (simp add: setContext_def DOMWorld_def)

lemma nth_upd: "xs[i := v] ! j = (if j = i \<and> i < length xs then v else xs ! j)"
  by (cases "i < length xs") (auto simp: nth_list_update list_update_beyond)

lemma fold_preserves: "(\<And>x s. P s \<Longrightarrow> P (f x s)) \<Longrightarrow> P s \<Longrightarrow> P (fold f xs s)"
  by (induction xs arbitrary: s) auto

lemmas prims = upd_task_def cleanup_def terminate_def rerun_settle_def rerun_falsy_def
  rerun_resume_def rerun_def dispose_def executionContext_def

lemma same_context_refl: "same_context w w"
  by (simp add: same_context_def)

lemma same_context_trans: "same_context a b \<Longrightarrow> same_context b c \<Longrightarrow> same_context a c"
  by (simp add: same_context_def)

lemma same_context_terminate: "same_context w (terminate t e w)"
  by (simp add: same_context_def prims)

lemma same_context_rerun_settle: "same_context w (rerun_settle t r w)"
  by (simp add: same_context_def prims split: sum.splits)

lemma same_context_rerun_falsy: "same_context w (rerun_falsy t h oc w)"
  by (simp add: same_context_def prims split: sum.splits)

lemma same_context_rerun_resume: "same_context w (rerun_resume t n r w)"
  by (simp add: same_context_def prims split: sum.splits)

lemma same_context_rerun: "same_context w (rerun t w)"
  by (simp add: same_context_def prims Let_def split: sum.splits)

lemma same_context_fold:
  "(\<And>x s. same_context s (f x s)) \<Longrightarrow> same_context w (fold f xs w)"
proof (induction xs arbitrary: w)
  case Nil
  show ?case by (simp add: same_context_refl)
next
  case (Cons x xs)
  have "same_context w (f x w)" by (rule Cons.prems)
  moreover have "same_context (f x w) (fold f xs (f x w))"
    by (rule Cons.IH) (rule Cons.prems)
  ultimately show ?case by (simp add: same_context_trans)
qed

lemma tasks_ok_cong:
  "waitTasks w' = waitTasks w \<Longrightarrow> tasks w' = tasks w \<Longrightarrow> tasks_ok w' = tasks_ok w"
  by (simp add: tasks_ok_def)

lemma tasks_ok_other_fields:
  "tasks_ok (w\<lparr>pending := pe\<rparr>) = tasks_ok w"
  "tasks_ok (w\<lparr>disposed := di\<rparr>) = tasks_ok w"
  "tasks_ok (w\<lparr>promises := pr\<rparr>) = tasks_ok w"
  "tasks_ok (w\<lparr>detached := de\<rparr>) = tasks_ok w"
  "tasks_ok (w\<lparr>documentPromise := dp\<rparr>) = tasks_ok w"
  "tasks_ok (w\<lparr>contextPromise := cp\<rparr>) = tasks_ok w"
  "tasks_ok (w\<lparr>contextResolveCallback := cb\<rparr>) = tasks_ok w"
  by (simp_all add: tasks_ok_def)

lemma tasks_ok_terminate: "tasks_ok w \<Longrightarrow> tasks_ok (terminate t e w)"
  by (auto simp: tasks_ok_def prims nth_upd distinct_removeAll)

lemma tasks_ok_rerun_settle: "tasks_ok w \<Longrightarrow> tasks_ok (rerun_settle t r w)"
  by (auto simp: tasks_ok_def prims nth_upd distinct_removeAll split: sum.splits)

lemma tasks_ok_rerun_falsy: "tasks_ok w \<Longrightarrow> tasks_ok (rerun_falsy t h oc w)"
  using tasks_ok_rerun_settle[of w t "Inr h"]
  by (auto simp: rerun_falsy_def dispose_def tasks_ok_def)

lemma tasks_ok_rerun_resume: "tasks_ok w \<Longrightarrow> tasks_ok (rerun_resume t n r w)"
  using tasks_ok_rerun_settle[of w t r]
  by (auto simp: rerun_resume_def dispose_def tasks_ok_def split: sum.splits)

lemma tasks_ok_runCount:
  "tasks_ok w \<Longrightarrow> tasks_ok (upd_task t (\<lambda>k. k\<lparr>runCount := f k\<rparr>) w)"
  by (auto simp: tasks_ok_def prims nth_upd)

lemma tasks_ok_rerun: "tasks_ok w \<Longrightarrow> tasks_ok (rerun t w)"
  using tasks_ok_rerun_resume[OF tasks_ok_runCount, of w t]
  by (auto simp: rerun_def Let_def tasks_ok_runCount tasks_ok_other_fields split: sum.splits)

lemma tasks_ok_setContext:
  assumes "tasks_ok w" and "setContext c w = Inr w'"
  shows "tasks_ok w'"
proof (cases c)
  case None
  with assms(2) have "waitTasks w' = waitTasks w" "tasks w' = tasks w"
    by (auto simp: setContext_def)
  with assms(1) show ?thesis by (simp cong: tasks_ok_cong)
next
  case (Some ctx)
  with assms(2) obtain p where
    w': "w' = fold rerun (waitTasks w)
           (w\<lparr>promises := (promises w)[p := fulfill ctx (promises w ! p)],
              contextResolveCallback := None\<rparr>)"
    by (auto simp: setContext_def split: option.splits)
  have "tasks_ok (w\<lparr>promises := (promises w)[p := fulfill ctx (promises w ! p)],
              contextResolveCallback := None\<rparr>)"
    using assms(1) by (simp add: tasks_ok_other_fields)
  then show ?thesis unfolding w' by (rule fold_preserves[rotated]) (rule tasks_ok_rerun)
qed

lemma tasks_ok_detach: "tasks_ok w \<Longrightarrow> tasks_ok (detach w)"
  unfolding detach_def
  by (rule fold_preserves) (auto simp: tasks_ok_terminate tasks_ok_other_fields)

lemma tasks_ok_document: "tasks_ok w \<Longrightarrow> tasks_ok (snd (document w))"
  by (auto simp: document_def tasks_ok_other_fields split: option.splits sum.splits)

lemma tasks_ok_new_task:
  assumes "tasks_ok w"
    and "promise k = Pending" and "\<not> terminated k"
  shows "tasks_ok (w\<lparr>tasks := tasks w @ [k],
                    waitTasks := (if length (tasks w) \<in> set (waitTasks w) then waitTasks w
                                  else waitTasks w @ [length (tasks w)])\<rparr>)"
proof -
  have old: "\<And>t. t \<in> set (waitTasks w) \<Longrightarrow> t < length (tasks w)"
    using assms(1) by (simp add: tasks_ok_def)
  have fresh: "length (tasks w) \<notin> set (waitTasks w)"
    using old by blast
  have d: "distinct (waitTasks w @ [length (tasks w)])"
    using assms(1) fresh by (simp add: tasks_ok_def)
  have reg: "\<And>t. t \<in> set (waitTasks w @ [length (tasks w)]) \<Longrightarrow>
      t < length (tasks w @ [k]) \<and> promise ((tasks w @ [k]) ! t) = Pending \<and>
      \<not> terminated ((tasks w @ [k]) ! t)"
  proof -
    fix t assume "t \<in> set (waitTasks w @ [length (tasks w)])"
    then consider "t \<in> set (waitTasks w)" | "t = length (tasks w)" by auto
    then show "t < length (tasks w @ [k]) \<and> promise ((tasks w @ [k]) ! t) = Pending \<and>
      \<not> terminated ((tasks w @ [k]) ! t)"
    proof cases
      case 1
      then have "t < length (tasks w)" by (rule old)
      then show ?thesis using 1 assms(1) by (auto simp: tasks_ok_def nth_append)
    next
      case 2
      then show ?thesis using assms(2,3) by simp
    qed
  qed
  have tm: "\<And>t. t < length (tasks w @ [k]) \<Longrightarrow> timeoutTimer ((tasks w @ [k]) ! t) \<noteq> None \<Longrightarrow>
      t \<in> set (waitTasks w @ [length (tasks w)])"
  proof -
    fix t assume a: "t < length (tasks w @ [k])" "timeoutTimer ((tasks w @ [k]) ! t) \<noteq> None"
    show "t \<in> set (waitTasks w @ [length (tasks w)])"
    proof (cases "t < length (tasks w)")
      case True
      then show ?thesis using a(2) assms(1) by (simp add: tasks_ok_def nth_append)
    next
      case False
      then have "t = length (tasks w)" using a(1) by simp
      then show ?thesis by simp
    qed
  qed
  show ?thesis
    unfolding tasks_ok_def using fresh d reg tm by simp
qed

lemma if_both: "P a \<Longrightarrow> P b \<Longrightarrow> P (if c then a else b)"
  by simp

lemma tasks_ok_set_timer:
  "tasks_ok w \<Longrightarrow> t \<in> set (waitTasks w) \<Longrightarrow>
   tasks_ok (upd_task t (\<lambda>k. k\<lparr>timeoutTimer := x\<rparr>) w)"
  by (auto simp: tasks_ok_def upd_task_def nth_upd)

lemma tasks_ok_WaitTask:
  assumes "tasks_ok w" and "WaitTask body title poll ms as w = Inr (t, w')"
  shows "tasks_ok w'"
proof -
  let ?k = "\<lparr>polling = poll, timeout = ms, predicateBody = getPredicateBody body,
         args = as, runCount = 0, promise = Pending, timeoutTimer = None,
         terminated = False\<rparr>"
  let ?w1 = "w\<lparr>tasks := tasks w @ [?k],
               waitTasks := (if length (tasks w) \<in> set (waitTasks w) then waitTasks w
                             else waitTasks w @ [length (tasks w)])\<rparr>"
  let ?w2 = "if ms \<noteq> 0
             then upd_task (length (tasks w))
                    (\<lambda>k. k\<lparr>timeoutTimer := Some (TimeoutError (timeoutMessage title ms))\<rparr>) ?w1
             else ?w1"
  from assms(2) have w': "w' = rerun (length (tasks w)) ?w2"
    by (auto simp: WaitTask_def Let_def split: option.splits)
  have ok1: "tasks_ok ?w1" using assms(1) by (rule tasks_ok_new_task) simp_all
  have fresh: "length (tasks w) \<notin> set (waitTasks w)"
    using assms(1) by (auto simp: tasks_ok_def)
  have ok2: "tasks_ok (upd_task (length (tasks w))
                    (\<lambda>k. k\<lparr>timeoutTimer := Some (TimeoutError (timeoutMessage title ms))\<rparr>) ?w1)"
    using ok1 by (rule tasks_ok_set_timer) (simp add: fresh)
  have "tasks_ok ?w2" by (rule if_both[where P = tasks_ok]) (fact ok2, fact ok1)
  then show ?thesis unfolding w' by (rule tasks_ok_rerun)
qed

lemma tasks_ok_step: "tasks_ok w \<Longrightarrow> tasks_ok (step e w)"
proof (cases e)
  case (SetContext c)
  assume "tasks_ok w"
  then show ?thesis using SetContext tasks_ok_setContext[of w c]
    by (auto split: sum.splits)
next
  case (NewWaitTask body title poll ms as)
  assume "tasks_ok w"
  then show ?thesis using NewWaitTask tasks_ok_WaitTask[of w body title poll ms as]
    by (auto split: sum.splits)
next
  case (EvaluateSettled t n p r)
  assume "tasks_ok w"
  then have "tasks_ok (w\<lparr>pending := remove1 (AwaitEvaluate t n p) (pending w)\<rparr>)"
    by (simp add: tasks_ok_other_fields)
  then show ?thesis using EvaluateSettled \<open>tasks_ok w\<close> by (simp add: tasks_ok_rerun_resume)
next
  case (FalsySettled t n h oc)
  assume "tasks_ok w"
  then have "tasks_ok (w\<lparr>pending := remove1 (AwaitFalsy t n h) (pending w)\<rparr>)"
    by (simp add: tasks_ok_other_fields)
  then show ?thesis using FalsySettled \<open>tasks_ok w\<close> by (simp add: tasks_ok_rerun_falsy)
qed (auto simp: tasks_ok_detach tasks_ok_document tasks_ok_terminate split: option.splits)

lemma tasks_ok_DOMWorld: "tasks_ok (DOMWorld url ts)"
  by (simp add: tasks_ok_def DOMWorld_def)

lemma reachable_tasks_ok: "reachable w \<Longrightarrow> tasks_ok w"
  by (induction rule: reachable.induct) (auto simp: tasks_ok_DOMWorld tasks_ok_step)

lemma same_context_WaitTask:
  assumes "WaitTask body title poll ms as w = Inr (t, w')"
  shows "same_context w w'"
proof -
  from assms obtain w2 where w': "w' = rerun (length (tasks w)) w2" and "same_context w w2"
    by (auto simp: WaitTask_def Let_def same_context_def upd_task_def split: option.splits if_splits)
  then show ?thesis using same_context_rerun[of w2 "length (tasks w)"]
    by (auto intro: same_context_trans)
qed

lemma same_context_detach: "same_context (w\<lparr>detached := True\<rparr>) (detach w)"
  unfolding detach_def by (rule same_context_fold) (rule same_context_terminate)

lemma same_context_setContext_bind:
  "same_context (w\<lparr>promises := ps, contextResolveCallback := cb\<rparr>)
     (fold rerun ts (w\<lparr>promises := ps, contextResolveCallback := cb\<rparr>))"
  by (rule same_context_fold) (rule same_context_rerun)

lemma context_ok_same: "same_context w w' \<Longrightarrow> context_ok w \<Longrightarrow> context_ok w'"
  by (simp add: same_context_def context_ok_def)

lemma context_ok_setContext:
  assumes "context_ok w" and "setContext c w = Inr w'"
  shows "context_ok w'"
proof (cases c)
  case None
  with assms(2) show ?thesis by (auto simp: setContext_def context_ok_def)
next
  case (Some ctx)
  with assms(2) obtain p where cb: "contextResolveCallback w = Some p" and
    w': "w' = fold rerun (waitTasks w)
           (w\<lparr>promises := (promises w)[p := fulfill ctx (promises w ! p)],
              contextResolveCallback := None\<rparr>)"
    by (auto simp: setContext_def split: option.splits)
  have "context_ok (w\<lparr>promises := (promises w)[p := fulfill ctx (promises w ! p)],
              contextResolveCallback := None\<rparr>)"
    using assms(1) cb by (auto simp: context_ok_def split: option.splits)
  then show ?thesis unfolding w'
    by (rule context_ok_same[OF same_context_setContext_bind])
qed

lemma context_ok_detach: "context_ok w \<Longrightarrow> context_ok (detach w)"
proof -
  assume "context_ok w"
  then have "context_ok (w\<lparr>detached := True\<rparr>)" by (simp add: context_ok_def)
  then show ?thesis by (rule context_ok_same[OF same_context_detach])
qed

lemma context_ok_document: "context_ok w \<Longrightarrow> context_ok (snd (document w))"
  by (auto simp: document_def context_ok_def executionContext_def split: option.splits)

lemma same_context_pending: "same_context w (w\<lparr>pending := pe\<rparr>)"
  by (simp add: same_context_def)

lemma context_ok_step: "context_ok w \<Longrightarrow> context_ok (step e w)"
proof (cases e)
  case (SetContext c)
  assume "context_ok w"
  then show ?thesis using SetContext context_ok_setContext[of w c]
    by (auto split: sum.splits)
next
  case (NewWaitTask body title poll ms as)
  assume "context_ok w"
  then show ?thesis using NewWaitTask same_context_WaitTask[of body title poll ms as w]
    by (auto split: sum.splits intro: context_ok_same)
next
  case (TimerFired t)
  assume "context_ok w"
  then show ?thesis using TimerFired
    by (auto split: option.splits intro: context_ok_same[OF same_context_terminate])
next
  case (EvaluateSettled t n p r)
  assume "context_ok w"
  then have "context_ok (w\<lparr>pending := remove1 (AwaitEvaluate t n p) (pending w)\<rparr>)"
    by (rule context_ok_same[OF same_context_pending])
  then have "context_ok (rerun_resume t n r (w\<lparr>pending := remove1 (AwaitEvaluate t n p) (pending w)\<rparr>))"
    by (rule context_ok_same[OF same_context_rerun_resume])
  then show ?thesis using EvaluateSettled \<open>context_ok w\<close> by simp
next
  case (FalsySettled t n h oc)
  assume "context_ok w"
  then have "context_ok (w\<lparr>pending := remove1 (AwaitFalsy t n h) (pending w)\<rparr>)"
    by (rule context_ok_same[OF same_context_pending])
  then have "context_ok (rerun_falsy t h oc (w\<lparr>pending := remove1 (AwaitFalsy t n h) (pending w)\<rparr>))"
    by (rule context_ok_same[OF same_context_rerun_falsy])
  then show ?thesis using FalsySettled \<open>context_ok w\<close> by simp
qed (auto simp: context_ok_detach context_ok_document)

lemma context_ok_DOMWorld: "context_ok (DOMWorld url ts)"
  by (simp add: context_ok_def DOMWorld_def)

lemma reachable_context_ok: "reachable w \<Longrightarrow> context_ok w"
  by (induction rule: reachable.induct) (auto simp: context_ok_DOMWorld context_ok_step)

lemma reachable_run: "reachable w \<Longrightarrow> reachable (run es w)"
  unfolding run_def by (induction es arbitrary: w) (auto intro: reachable.stepped)

lemma fulfill_not_Rejected: "p \<noteq> Rejected e \<Longrightarrow> fulfill c p \<noteq> Rejected e"
  by (cases p) auto

lemma never_rejected_same: "same_context w w' \<Longrightarrow> never_rejected w \<Longrightarrow> never_rejected w'"
  by (simp add: same_context_def never_rejected_def)

lemma never_rejected_setContext:
  assumes "never_rejected w" and "setContext c w = Inr w'"
  shows "never_rejected w'"
proof (cases c)
  case None
  with assms show ?thesis
    by (auto simp: setContext_def never_rejected_def nth_append less_Suc_eq)
next
  case (Some ctx)
  with assms(2) obtain p where
    w': "w' = fold rerun (waitTasks w)
           (w\<lparr>promises := (promises w)[p := fulfill ctx (promises w ! p)],
              contextResolveCallback := None\<rparr>)"
    by (auto simp: setContext_def split: option.splits)
  have "never_rejected (w\<lparr>promises := (promises w)[p := fulfill ctx (promises w ! p)],
              contextResolveCallback := None\<rparr>)"
    using assms(1) by (auto simp: never_rejected_def nth_upd fulfill_not_Rejected)
  then show ?thesis unfolding w'
    by (rule never_rejected_same[OF same_context_setContext_bind])
qed

lemma same_context_step:
  "(\<And>c. e \<noteq> SetContext c) \<Longrightarrow> e \<noteq> Detach \<Longrightarrow> e \<noteq> Document \<Longrightarrow> same_context w (step e w)"
proof (cases e)
  case (NewWaitTask body title poll ms as)
  then show ?thesis using same_context_WaitTask[of body title poll ms as w]
    by (auto split: sum.splits simp: same_context_refl)
next
  case (TimerFired t)
  then show ?thesis
    by (auto split: option.splits simp: same_context_refl same_context_terminate)
next
  case (EvaluateSettled t n p r)
  have "same_context w (rerun_resume t n r (w\<lparr>pending := remove1 (AwaitEvaluate t n p) (pending w)\<rparr>))"
    by (rule same_context_trans[OF same_context_pending same_context_rerun_resume])
  then show ?thesis using EvaluateSettled by (simp add: same_context_refl)
next
  case (FalsySettled t n h oc)
  have "same_context w (rerun_falsy t h oc (w\<lparr>pending := remove1 (AwaitFalsy t n h) (pending w)\<rparr>))"
    by (rule same_context_trans[OF same_context_pending same_context_rerun_falsy])
  then show ?thesis using FalsySettled by (simp add: same_context_refl)
qed auto

lemma never_rejected_step:
  assumes "never_rejected w"
  shows "never_rejected (step e w)"
proof -
  consider c where "e = SetContext c" | "e = Detach" | "e = Document"
    | "(\<forall>c. e \<noteq> SetContext c) \<and> e \<noteq> Detach \<and> e \<noteq> Document"
    by blast
  then show ?thesis
  proof cases
    case 1
    then show ?thesis using assms never_rejected_setContext[of w c]
      by (auto split: sum.splits)
  next
    case 2
    from assms have "never_rejected (w\<lparr>detached := True\<rparr>)" by (simp add: never_rejected_def)
    then show ?thesis using 2 by (simp add: never_rejected_same[OF same_context_detach])
  next
    case 3
    then show ?thesis using assms
      by (auto simp: document_def never_rejected_def split: option.splits sum.splits)
  next
    case 4
    then have "same_context w (step e w)" by (intro same_context_step) auto
    then show ?thesis using assms by (rule never_rejected_same)
  qed
qed

lemma reachable_never_rejected: "reachable w \<Longrightarrow> never_rejected w"
  by (induction rule: reachable.induct)
     (auto simp: never_rejected_step, simp add: never_rejected_def DOMWorld_def)

lemma hasContext_same: "same_context w w' \<Longrightarrow> hasContext w' = hasContext w"
  by (simp add: same_context_def hasContext_def)

lemma setContext_bind_fields:
  assumes "contextResolveCallback w = Some p"
  shows "\<exists>w'. setContext (Some c) w = Inr w' \<and>
           contextResolveCallback w' = None \<and>
           promises w' = (promises w)[p := fulfill c (promises w ! p)] \<and>
           contextPromise w' = contextPromise w \<and> documentPromise w' = documentPromise w \<and>
           detached w' = detached w \<and> frame_url w' = frame_url w"
proof -
  let ?w0 = "w\<lparr>promises := (promises w)[p := fulfill c (promises w ! p)],
               contextResolveCallback := None\<rparr>"
  have "setContext (Some c) w = Inr (fold rerun (waitTasks w) ?w0)"
    using assms by (simp add: setContext_def)
  moreover have "same_context ?w0 (fold rerun (waitTasks w) ?w0)"
    by (rule same_context_setContext_bind)
  ultimately show ?thesis by (simp add: same_context_def)
qed

lemma promises_detach: "promises (detach w) = promises w"
  using same_context_detach[of w] by (simp add: same_context_def)

lemma contextPromise_detach: "contextPromise (detach w) = contextPromise w"
  using same_context_detach[of w] by (simp add: same_context_def)

lemma detached_detach: "detached (detach w)"
  using same_context_detach[of w] by (simp add: same_context_def)

lemma rerun_length: "length (tasks (rerun x w)) = length (tasks w)"
  by (simp add: prims Let_def split: sum.splits)

lemma rerun_other: "t \<noteq> x \<Longrightarrow> tasks (rerun x w) ! t = tasks w ! t"
  by (simp add: prims Let_def nth_upd split: sum.splits)

lemma rerun_runCount:
  "x < length (tasks w) \<Longrightarrow> runCount (tasks (rerun x w) ! x) = Suc (runCount (tasks w ! x))"
  by (simp add: prims Let_def nth_upd split: sum.splits)

lemma rerun_pending:
  "\<not> detached w \<Longrightarrow> x < length (tasks w) \<Longrightarrow>
   pending (rerun x w) =
     pending w @ [AwaitEvaluate x (Suc (runCount (tasks w ! x))) (contextPromise w)]"
  by (simp add: prims Let_def nth_upd)

lemma fold_rerun_length: "length (tasks (fold rerun ts w)) = length (tasks w)"
  by (induction ts arbitrary: w) (auto simp: rerun_length)

lemma fold_rerun_other: "t \<notin> set ts \<Longrightarrow> tasks (fold rerun ts w) ! t = tasks w ! t"
  by (induction ts arbitrary: w) (auto simp: rerun_other)

lemma fold_rerun_runCount:
  "distinct ts \<Longrightarrow> \<forall>x \<in> set ts. x < length (tasks w) \<Longrightarrow> t \<in> set ts \<Longrightarrow>
   runCount (tasks (fold rerun ts w) ! t) = Suc (runCount (tasks w ! t))"
proof (induction ts arbitrary: w)
  case Nil
  then show ?case by simp
next
  case (Cons x xs)
  show ?case
  proof (cases "t = x")
    case True
    then have "t \<notin> set xs" using Cons.prems(1) by simp
    then have "tasks (fold rerun xs (rerun x w)) ! t = tasks (rerun x w) ! t"
      by (rule fold_rerun_other)
    then show ?thesis using True Cons.prems(2) by (simp add: rerun_runCount)
  next
    case False
    then have "t \<in> set xs" using Cons.prems(3) by simp
    moreover have "distinct xs" using Cons.prems(1) by simp
    moreover have "\<forall>y \<in> set xs. y < length (tasks (rerun x w))"
      using Cons.prems(2) by (simp add: rerun_length)
    ultimately have "runCount (tasks (fold rerun xs (rerun x w)) ! t) =
        Suc (runCount (tasks (rerun x w) ! t))" by (rule Cons.IH[rotated 2])
    then show ?thesis using False by (simp add: rerun_other)
  qed
qed

lemma fold_rerun_pending:
  "distinct ts \<Longrightarrow> \<forall>x \<in> set ts. x < length (tasks w) \<Longrightarrow> \<not> detached w \<Longrightarrow>
   pending (fold rerun ts w) =
     pending w @ map (\<lambda>t. AwaitEvaluate t (Suc (runCount (tasks w ! t))) (contextPromise w)) ts"
proof (induction ts arbitrary: w)
  case Nil
  then show ?case by simp
next
  case (Cons x xs)
  have sc: "same_context w (rerun x w)" by (rule same_context_rerun)
  have "pending (fold rerun xs (rerun x w)) =
      pending (rerun x w) @
      map (\<lambda>t. AwaitEvaluate t (Suc (runCount (tasks (rerun x w) ! t))) (contextPromise (rerun x w))) xs"
    using Cons.prems sc by (intro Cons.IH) (auto simp: rerun_length same_context_def)
  moreover have "map (\<lambda>t. AwaitEvaluate t (Suc (runCount (tasks (rerun x w) ! t))) (contextPromise (rerun x w))) xs
      = map (\<lambda>t. AwaitEvaluate t (Suc (runCount (tasks w ! t))) (contextPromise w)) xs"
  proof (rule map_cong)
    fix t assume "t \<in> set xs"
    then have "t \<noteq> x" using Cons.prems(1) by auto
    then show "AwaitEvaluate t (Suc (runCount (tasks (rerun x w) ! t))) (contextPromise (rerun x w)) =
        AwaitEvaluate t (Suc (runCount (tasks w ! t))) (contextPromise w)"
      using sc by (simp add: rerun_other same_context_def)
  qed simp
  ultimately show ?case using Cons.prems by (simp add: rerun_pending)
qed

lemma reject_settled: "p \<noteq> Pending \<Longrightarrow> reject e p = p"
  by (cases p) auto

lemma fulfill_settled: "p \<noteq> Pending \<Longrightarrow> fulfill v p = p"
  by (cases p) auto

lemma world_later_refl: "world_later w w"
  by (simp add: world_later_def task_later_def)

lemma world_later_trans: "world_later a b \<Longrightarrow> world_later b c \<Longrightarrow> world_later a c"
  unfolding world_later_def task_later_def
  by (metis (no_types, lifting) le_trans less_le_trans)

lemma world_later_tasks_eq: "tasks w' = tasks w \<Longrightarrow> world_later w w'"
  by (simp add: world_later_def task_later_def)

lemma world_later_terminate: "world_later w (terminate t e w)"
  by (auto simp: world_later_def task_later_def prims nth_upd reject_settled)

lemma world_later_rerun_settle: "world_later w (rerun_settle t r w)"
  by (auto simp: world_later_def task_later_def prims nth_upd reject_settled fulfill_settled
      split: sum.splits)

lemma world_later_rerun_falsy: "world_later w (rerun_falsy t h oc w)"
  using world_later_rerun_settle[of w t "Inr h"]
  by (auto simp: rerun_falsy_def dispose_def world_later_tasks_eq)

lemma world_later_rerun_resume: "world_later w (rerun_resume t n r w)"
  using world_later_rerun_settle[of w t r]
  by (auto simp: rerun_resume_def dispose_def world_later_tasks_eq split: sum.splits)

lemma world_later_runCount: "world_later w (upd_task t (\<lambda>k. k\<lparr>runCount := f k\<rparr>) w)"
  by (auto simp: world_later_def task_later_def upd_task_def nth_upd)

lemma world_later_rerun: "world_later w (rerun t w)"
proof -
  let ?w1 = "upd_task t (\<lambda>k. k\<lparr>runCount := Suc (runCount k)\<rparr>) w"
  have a: "world_later w ?w1" by (rule world_later_runCount)
  have "world_later ?w1 (rerun t w)"
    using world_later_rerun_resume[of ?w1 t "runCount (tasks ?w1 ! t)"]
    by (auto simp: rerun_def Let_def world_later_tasks_eq split: sum.splits)
  with a show ?thesis by (rule world_later_trans)
qed

lemma world_later_fold:
  "(\<And>x s. world_later s (f x s)) \<Longrightarrow> world_later w (fold f xs w)"
proof (induction xs arbitrary: w)
  case Nil
  show ?case by (simp add: world_later_refl)
next
  case (Cons x xs)
  have "world_later w (f x w)" by (rule Cons.prems)
  moreover have "world_later (f x w) (fold f xs (f x w))"
    by (rule Cons.IH) (rule Cons.prems)
  ultimately show ?case by (simp add: world_later_trans)
qed

lemma world_later_setContext: "setContext c w = Inr w' \<Longrightarrow> world_later w w'"
proof (cases c)
  case None
  assume "setContext c w = Inr w'"
  with None show ?thesis by (auto simp: setContext_def world_later_tasks_eq)
next
  case (Some ctx)
  assume "setContext c w = Inr w'"
  with Some obtain p where
    w': "w' = fold rerun (waitTasks w)
           (w\<lparr>promises := (promises w)[p := fulfill ctx (promises w ! p)],
              contextResolveCallback := None\<rparr>)"
    by (auto simp: setContext_def split: option.splits)
  have a: "world_later w (w\<lparr>promises := (promises w)[p := fulfill ctx (promises w ! p)],
              contextResolveCallback := None\<rparr>)"
    by (rule world_later_tasks_eq) simp
  show ?thesis unfolding w'
    by (rule world_later_trans[OF a]) (rule world_later_fold, rule world_later_rerun)
qed

lemma world_later_detach: "world_later w (detach w)"
proof -
  have a: "world_later w (w\<lparr>detached := True\<rparr>)" by (rule world_later_tasks_eq) simp
  have "world_later (w\<lparr>detached := True\<rparr>) (detach w)"
    unfolding detach_def by (rule world_later_fold) (rule world_later_terminate)
  with a show ?thesis by (rule world_later_trans)
qed

lemma world_later_WaitTask:
  assumes "WaitTask body title poll ms as w = Inr (t, w')"
  shows "world_later w w'"
proof -
  from assms obtain w2 where w': "w' = rerun (length (tasks w)) w2"
    and t2: "length (tasks w2) = Suc (length (tasks w))"
       "\<forall>u < length (tasks w). tasks w2 ! u = tasks w ! u"
    by (auto simp: WaitTask_def Let_def upd_task_def nth_append nth_upd
             split: option.splits if_splits)
  from t2 have "world_later w w2" by (simp add: world_later_def task_later_def)
  then show ?thesis unfolding w' using world_later_rerun by (rule world_later_trans)
qed

lemma world_later_step: "world_later w (step e w)"
proof (cases e)
  case (SetContext c)
  then show ?thesis using world_later_setContext[of c w]
    by (auto split: sum.splits simp: world_later_refl)
next
  case Detach
  then show ?thesis by (simp add: world_later_detach)
next
  case Document
  then show ?thesis
    by (auto simp: document_def world_later_tasks_eq split: option.splits sum.splits)
next
  case (NewWaitTask body title poll ms as)
  then show ?thesis using world_later_WaitTask[of body title poll ms as w]
    by (auto split: sum.splits simp: world_later_refl)
next
  case (TimerFired t)
  then show ?thesis
    by (auto split: option.splits simp: world_later_refl world_later_terminate)
next
  case (EvaluateSettled t n p r)
  have "world_later w (rerun_resume t n r (w\<lparr>pending := remove1 (AwaitEvaluate t n p) (pending w)\<rparr>))"
    by (rule world_later_trans[OF world_later_tasks_eq world_later_rerun_resume]) simp
  then show ?thesis using EvaluateSettled by (simp add: world_later_refl)
next
  case (FalsySettled t n h oc)
  have "world_later w (rerun_falsy t h oc (w\<lparr>pending := remove1 (AwaitFalsy t n h) (pending w)\<rparr>))"
    by (rule world_later_trans[OF world_later_tasks_eq world_later_rerun_falsy]) simp
  then show ?thesis using FalsySettled by (simp add: world_later_refl)
qed

lemma world_later_run: "world_later w (run es w)"
  unfolding run_def by (rule world_later_fold) (rule world_later_step)

lemma WaitTask_new_task:
  assumes "WaitTask body title poll ms as w = Inr (t, w')"
  shows "t = length (tasks w) \<and> t < length (tasks w') \<and>
         (timeoutTimer (tasks w' ! t) = None \<or>
          timeoutTimer (tasks w' ! t) = Some (TimeoutError (timeoutMessage title ms)))"
proof -
  let ?k = "\<lparr>polling = poll, timeout = ms, predicateBody = getPredicateBody body,
         args = as, runCount = 0, promise = Pending, timeoutTimer = None,
         terminated = False\<rparr>"
  let ?w1 = "w\<lparr>tasks := tasks w @ [?k],
               waitTasks := (if length (tasks w) \<in> set (waitTasks w) then waitTasks w
                             else waitTasks w @ [length (tasks w)])\<rparr>"
  let ?w2 = "if ms \<noteq> 0
             then upd_task (length (tasks w))
                    (\<lambda>k. k\<lparr>timeoutTimer := Some (TimeoutError (timeoutMessage title ms))\<rparr>) ?w1
             else ?w1"
  from assms have t: "t = length (tasks w)" and w': "w' = rerun (length (tasks w)) ?w2"
    by (auto simp: WaitTask_def Let_def split: option.splits)
  have l2: "length (tasks ?w2) = Suc (length (tasks w))"
    by (simp add: upd_task_def)
  have tm2: "timeoutTimer (tasks ?w2 ! length (tasks w)) = None \<or>
        timeoutTimer (tasks ?w2 ! length (tasks w)) = Some (TimeoutError (timeoutMessage title ms))"
    by (simp add: upd_task_def nth_upd)
  have wl: "world_later ?w2 (rerun (length (tasks w)) ?w2)" by (rule world_later_rerun)
  have "length (tasks w) < length (tasks ?w2)" using l2 by simp
  with wl have "task_later (tasks ?w2 ! length (tasks w)) (tasks (rerun (length (tasks w)) ?w2) ! length (tasks w))"
    unfolding world_later_def by blast
  with tm2 have "timeoutTimer (tasks (rerun (length (tasks w)) ?w2) ! length (tasks w)) = None \<or>
        timeoutTimer (tasks (rerun (length (tasks w)) ?w2) ! length (tasks w)) =
          Some (TimeoutError (timeoutMessage title ms))"
    unfolding task_later_def by metis
  moreover have "length (tasks (rerun (length (tasks w)) ?w2)) = Suc (length (tasks w))"
    using l2 by (simp only: rerun_length)
  ultimately show ?thesis unfolding t w' by simp
qed

lemma timer_fires:
  assumes "tasks_ok w" and "t < length (tasks w)" and "timeoutTimer (tasks w ! t) = Some e"
  shows "promise (tasks w ! t) = Pending \<and>
         promise (tasks (step (TimerFired t) w) ! t) = Rejected e \<and>
         terminated (tasks (step (TimerFired t) w) ! t) \<and>
         timeoutTimer (tasks (step (TimerFired t) w) ! t) = None \<and>
         t \<notin> set (waitTasks (step (TimerFired t) w))"
proof -
  from assms have "t \<in> set (waitTasks w)" by (auto simp: tasks_ok_def)
  with assms(1) have "promise (tasks w ! t) = Pending" by (auto simp: tasks_ok_def)
  then show ?thesis using assms(2,3)
    by (auto simp: terminate_def cleanup_def upd_task_def nth_upd)
qed

lemma settled_not_registered:
  "tasks_ok w \<Longrightarrow> promise (tasks w ! t) \<noteq> Pending \<Longrightarrow> t \<notin> set (waitTasks w)"
  by (auto simp: tasks_ok_def)

lemma terminate_waitTasks: "waitTasks (terminate t e w) = removeAll t (waitTasks w)"
  by (simp add: prims)

lemma terminate_other: "u \<noteq> t \<Longrightarrow> tasks (terminate t e w) ! u = tasks w ! u"
  by (simp add: prims nth_upd)

lemma terminate_promise:
  "t < length (tasks w) \<Longrightarrow> promise (tasks w ! t) = Pending \<Longrightarrow>
   promise (tasks (terminate t e w) ! t) = Rejected e"
  by (simp add: prims nth_upd)

lemma terminate_length: "length (tasks (terminate t e w)) = length (tasks w)"
  by (simp add: prims)

lemma fold_terminate_waitTasks:
  "set (waitTasks (fold (\<lambda>t. terminate t e) ts w)) = set (waitTasks w) - set ts"
  by (induction ts arbitrary: w) (auto simp: terminate_waitTasks)

lemma fold_terminate_promise:
  "t \<in> set ts \<Longrightarrow> t < length (tasks w) \<Longrightarrow> promise (tasks w ! t) = Pending \<Longrightarrow>
   promise (tasks (fold (\<lambda>t. terminate t e) ts w) ! t) = Rejected e"
proof (induction ts arbitrary: w)
  case Nil
  then show ?case by simp
next
  case (Cons x xs)
  show ?case
  proof (cases "t = x")
    case True
    have a: "promise (tasks (terminate x e w) ! t) = Rejected e"
      using True Cons.prems by (simp add: terminate_promise)
    have "world_later (terminate x e w) (fold (\<lambda>t. terminate t e) xs (terminate x e w))"
      by (rule world_later_fold) (rule world_later_terminate)
    then have "task_later (tasks (terminate x e w) ! t)
        (tasks (fold (\<lambda>t. terminate t e) xs (terminate x e w)) ! t)"
      using Cons.prems(2) by (simp add: world_later_def terminate_length)
    with a show ?thesis by (simp add: task_later_def)
  next
    case False
    then have "t \<in> set xs" using Cons.prems(1) by simp
    moreover have "t < length (tasks (terminate x e w))"
      using Cons.prems(2) by (simp add: terminate_length)
    moreover have "promise (tasks (terminate x e w) ! t) = Pending"
      using False Cons.prems(3) by (simp add: terminate_other)
    ultimately show ?thesis using Cons.IH by simp
  qed
qed

section \<open>Lemmas about the poll loop\<close>

lemmas poll_defs = pollMutation_def observer_callback_def onRaf_def pollRaf_def onTimeout_def
  pollInterval_def

lemma fulfill_cases: "fulfill v p = (if p = Pending then Fulfilled v else p)"
  by (cases p) auto

lemma reject_cases: "reject e p = (if p = Pending then Rejected e else p)"
  by (cases p) auto

lemma poll_ok_start:
  "check_polling poll = None \<Longrightarrow> poll_ok first (waitForPredicatePageFunction poll ms first)"
  by (auto simp: poll_ok_def waitForPredicatePageFunction_def check_polling_def poll_defs Let_def
        fulfill_cases reject_cases split: polling.splits sum.splits if_splits)

lemma poll_ok_step: "poll_ok first s \<Longrightarrow> poll_ok first (poll_step ev s)"
  by (cases ev)
     (auto simp: poll_ok_def poll_defs Let_def fulfill_cases reject_cases
        split: polling.splits sum.splits if_splits)

lemma poll_ok_run: "poll_ok first s \<Longrightarrow> poll_ok first (poll_run es s)"
  unfolding poll_run_def by (induction es arbitrary: s) (auto simp: poll_ok_step)

lemma strategy_step: "strategy (poll_step ev s) = strategy s"
  by (cases ev)
     (auto simp: poll_defs Let_def split: polling.splits sum.splits if_splits)

lemma strategy_run: "strategy (poll_run es s) = strategy s"
  unfolding poll_run_def by (induction es arbitrary: s) (auto simp: strategy_step)

lemma strategy_start: "strategy (waitForPredicatePageFunction poll ms first) = poll"
  by (auto simp: waitForPredicatePageFunction_def poll_defs Let_def
        split: polling.splits sum.splits if_splits)

lemma settled_step: "result s \<noteq> Pending \<Longrightarrow> result (poll_step ev s) = result s"
  by (cases ev)
     (auto simp: poll_defs Let_def fulfill_cases reject_cases
        split: polling.splits sum.splits if_splits)

lemma poll_step_raf:
  "strategy s = PollString ''raf'' \<Longrightarrow>
   poll_step (Callback oc) s =
     (if scheduled s then snd (onRaf oc (s\<lparr>scheduled := False\<rparr>)) else s)"
  by simp

lemma poll_step_mutation:
  "strategy s = PollString ''mutation'' \<Longrightarrow>
   poll_step (Callback oc) s = (if observing s then observer_callback oc s else s)"
  by simp

lemma poll_step_interval:
  "strategy s = PollNumber i \<Longrightarrow>
   poll_step (Callback oc) s =
     (if scheduled s then snd (onTimeout oc (s\<lparr>scheduled := False\<rparr>)) else s)"
  by simp

lemma valid_polling:
  "check_polling poll = None \<Longrightarrow>
   poll = PollString ''raf'' \<or> poll = PollString ''mutation'' \<or> (\<exists>i. poll = PollNumber i)"
  by (cases poll) (auto simp: check_polling_def split: if_splits)

lemma poll_mode_ok_start:
  assumes "check_polling poll = None"
  shows "poll_mode_ok (waitForPredicatePageFunction poll ms first)"
proof -
  from valid_polling[OF assms] consider "poll = PollString ''raf''"
    | "poll = PollString ''mutation''" | i where "poll = PollNumber i" by blast
  then show ?thesis
  proof cases
    case 1
    then show ?thesis
      by (simp add: poll_mode_ok_def waitForPredicatePageFunction_def pollRaf_def onRaf_def
            Let_def split: sum.splits)
  next
    case 2
    then show ?thesis
      by (simp add: poll_mode_ok_def waitForPredicatePageFunction_def pollMutation_def
            Let_def split: sum.splits)
  next
    case 3
    then show ?thesis
      by (simp add: poll_mode_ok_def waitForPredicatePageFunction_def pollInterval_def
            onTimeout_def Let_def split: sum.splits)
  qed
qed

lemma poll_mode_ok_step:
  assumes "poll_mode_ok s"
    and "strategy s = PollString ''raf'' \<or> strategy s = PollString ''mutation'' \<or>
         (\<exists>i. strategy s = PollNumber i)"
  shows "poll_mode_ok (poll_step ev s)"
proof (cases ev)
  case TimeoutElapsed
  then show ?thesis using assms(1) by (simp add: poll_mode_ok_def)
next
  case (Callback oc)
  from assms(2) consider "strategy s = PollString ''raf''"
    | "strategy s = PollString ''mutation''" | i where "strategy s = PollNumber i" by blast
  then show ?thesis
  proof cases
    case 1
    then show ?thesis using assms(1) Callback
      by (simp add: poll_mode_ok_def onRaf_def split: sum.splits)
  next
    case 2
    then show ?thesis using assms(1) Callback
      by (simp add: poll_mode_ok_def observer_callback_def Let_def split: sum.splits)
  next
    case 3
    then show ?thesis using assms(1) Callback
      by (simp add: poll_mode_ok_def onTimeout_def split: sum.splits)
  qed
qed

lemma poll_mode_ok_run:
  assumes "check_polling poll = None"
  shows "poll_mode_ok (poll_run es (waitForPredicatePageFunction poll ms first))"
proof (induction es rule: rev_induct)
  case Nil
  show ?case by (simp add: poll_run_def poll_mode_ok_start[OF assms])
next
  case (snoc ev es)
  let ?s = "poll_run es (waitForPredicatePageFunction poll ms first)"
  have "strategy ?s = poll" by (simp add: strategy_run strategy_start)
  with valid_polling[OF assms] have
    "strategy ?s = PollString ''raf'' \<or> strategy ?s = PollString ''mutation'' \<or>
         (\<exists>i. strategy ?s = PollNumber i)" by simp
  with snoc have "poll_mode_ok (poll_step ev ?s)" by (rule poll_mode_ok_step)
  then show ?case by (simp add: poll_run_def)
qed

lemma callback_after_timeout:
  assumes "poll_mode_ok s"
    and "strategy s = PollString ''raf'' \<or> strategy s = PollString ''mutation'' \<or>
         (\<exists>i. strategy s = PollNumber i)"
    and "result s = Pending" and "timedOut s" and "scheduled s \<or> observing s"
  shows "result (poll_step (Callback oc) s) = Fulfilled JSUndefined \<and>
         \<not> observing (poll_step (Callback oc) s) \<and> \<not> scheduled (poll_step (Callback oc) s)"
proof -
  from assms(2) consider "strategy s = PollString ''raf''"
    | "strategy s = PollString ''mutation''" | i where "strategy s = PollNumber i" by blast
  then show ?thesis
  proof cases
    case 1
    then show ?thesis using assms(1,3,4,5)
      by (simp add: poll_mode_ok_def onRaf_def)
  next
    case 2
    then show ?thesis using assms(1,3,4,5)
      by (simp add: poll_mode_ok_def observer_callback_def Let_def split: sum.splits)
  next
    case 3
    then show ?thesis using assms(1,3,4,5)
      by (simp add: poll_mode_ok_def onTimeout_def)
  qed
qed

lemma callback_with_success:
  assumes "poll_mode_ok s"
    and "strategy s = PollString ''raf'' \<or> strategy s = PollString ''mutation'' \<or>
         (\<exists>i. strategy s = PollNumber i)"
    and "result s = Pending" and "\<not> timedOut s" and "scheduled s \<or> observing s"
    and "truthy v"
  shows "result (poll_step (Callback (Inr v)) s) = Fulfilled v \<and>
         \<not> observing (poll_step (Callback (Inr v)) s) \<and>
         \<not> scheduled (poll_step (Callback (Inr v)) s)"
proof -
  from assms(2) consider "strategy s = PollString ''raf''"
    | "strategy s = PollString ''mutation''" | i where "strategy s = PollNumber i" by blast
  then show ?thesis
  proof cases
    case 1
    then show ?thesis using assms(1,3,4,5,6)
      by (simp add: poll_mode_ok_def onRaf_def)
  next
    case 2
    then show ?thesis using assms(1,3,4,5,6)
      by (simp add: poll_mode_ok_def observer_callback_def Let_def)
  next
    case 3
    then show ?thesis using assms(1,3,4,5,6)
      by (simp add: poll_mode_ok_def onTimeout_def)
  qed
qed

section \<open>The claims\<close>

text \<open>
  Each claim is stated about the functions above.  A claim about worlds as the program
  produces them is stated for the worlds that \<open>reachable\<close> holds of.
\<close>

subsection \<open>C1: stale runs\<close>

text \<open>
  \<open>rerun\<close> tests for staleness once, when the answer to its \<open>evaluateHandle\<close> call
  arrives.  If the task has then been terminated or its stored counter is no longer the
  \<open>n\<close> of the run, the run only disposes the handle it got (if it got one) and ends: no
  task changes and the set of registered tasks is the same.
\<close>

lemma stale_response_discarded:
  assumes "terminated (tasks w ! t) \<or> runCount (tasks w ! t) \<noteq> n"
  shows "step (EvaluateSettled t n p r) w =
           (if AwaitEvaluate t n p \<in> set (pending w) \<and> evaluate_ready w p r
            then (case r of
                    Inl e \<Rightarrow> w\<lparr>pending := remove1 (AwaitEvaluate t n p) (pending w)\<rparr>
                  | Inr h \<Rightarrow> dispose h (w\<lparr>pending := remove1 (AwaitEvaluate t n p) (pending w)\<rparr>))
            else w) \<and>
         tasks (step (EvaluateSettled t n p r) w) = tasks w \<and>
         waitTasks (step (EvaluateSettled t n p r) w) = waitTasks w"
  using assms by (auto simp: rerun_resume_def dispose_def split: sum.splits)

text \<open>
  A task is created in a bound world and the world is rebound before the first answer
  arrives: the answer of run 1 finds the counter at 2.
\<close>

lemma stale_response_discarded_example:
  "runCount (tasks (run [SetContext (Some 7),
        NewWaitTask (PredicateString ''window.ready'') ''function'' (PollString ''raf'') 100 [],
        SetContext None, SetContext (Some 8)] (DOMWorld ''about:blank'' 30000)) ! 0) \<noteq> 1 \<and>
   disposed (step (EvaluateSettled 0 1 (Some 0) (Inr 5)) (run [SetContext (Some 7),
        NewWaitTask (PredicateString ''window.ready'') ''function'' (PollString ''raf'') 100 [],
        SetContext None, SetContext (Some 8)] (DOMWorld ''about:blank'' 30000))) = [5] \<and>
   promise (tasks (step (EvaluateSettled 0 1 (Some 0) (Inr 5)) (run [SetContext (Some 7),
        NewWaitTask (PredicateString ''window.ready'') ''function'' (PollString ''raf'') 100 [],
        SetContext None, SetContext (Some 8)] (DOMWorld ''about:blank'' 30000))) ! 0) = Pending"
proof -
  let ?w = "run [SetContext (Some 7),
        NewWaitTask (PredicateString ''window.ready'') ''function'' (PollString ''raf'') 100 [],
        SetContext None, SetContext (Some 8)] (DOMWorld ''about:blank'' 30000)"
  have h: "runCount (tasks ?w ! 0) \<noteq> 1" by code_simp
  have en: "AwaitEvaluate 0 1 (Some 0) \<in> set (pending ?w)" "evaluate_ready ?w (Some 0) (Inr 5)"
    "disposed ?w = []" "promise (tasks ?w ! 0) = Pending"
    by code_simp+
  from h have "terminated (tasks ?w ! 0) \<or> runCount (tasks ?w ! 0) \<noteq> 1" by blast
  from stale_response_discarded[OF this, of "Some 0" "Inr 5"] en h
  show ?thesis by (simp add: dispose_def)
qed

text \<open>
  Claim C1 goes on to say that only the most recent run of a task can settle it.  The test
  is not made again after the second \<open>await\<close> of \<open>rerun\<close>, the one for the falsiness of
  the handle.  Run 1 of a task gets handle 5 while it is the current run and waits for the
  falsiness; the world is unbound and bound again, which starts run 2; then the falsiness
  arrives as \<open>false\<close>.  Run 1, no longer the most recent, resolves the task with handle 5
  and removes it from the set while the counter is 2 and run 2 is still waiting.
\<close>

theorem superseded_run_settles_task:
  "runCount (tasks (run [SetContext (Some 7),
        NewWaitTask (PredicateString ''window.ready'') ''function'' (PollString ''raf'') 100 [],
        EvaluateSettled 0 1 (Some 0) (Inr 5), SetContext None, SetContext (Some 8)]
      (DOMWorld ''about:blank'' 30000)) ! 0) = 2 \<and>
   promise (tasks (run [SetContext (Some 7),
        NewWaitTask (PredicateString ''window.ready'') ''function'' (PollString ''raf'') 100 [],
        EvaluateSettled 0 1 (Some 0) (Inr 5), SetContext None, SetContext (Some 8)]
      (DOMWorld ''about:blank'' 30000)) ! 0) = Pending \<and>
   pending (run [SetContext (Some 7),
        NewWaitTask (PredicateString ''window.ready'') ''function'' (PollString ''raf'') 100 [],
        EvaluateSettled 0 1 (Some 0) (Inr 5), SetContext None, SetContext (Some 8)]
      (DOMWorld ''about:blank'' 30000)) = [AwaitFalsy 0 1 5, AwaitEvaluate 0 2 (Some 1)] \<and>
   runCount (tasks (run [SetContext (Some 7),
        NewWaitTask (PredicateString ''window.ready'') ''function'' (PollString ''raf'') 100 [],
        EvaluateSettled 0 1 (Some 0) (Inr 5), SetContext None, SetContext (Some 8),
        FalsySettled 0 1 5 (Inr False)]
      (DOMWorld ''about:blank'' 30000)) ! 0) = 2 \<and>
   promise (tasks (run [SetContext (Some 7),
        NewWaitTask (PredicateString ''window.ready'') ''function'' (PollString ''raf'') 100 [],
        EvaluateSettled 0 1 (Some 0) (Inr 5), SetContext None, SetContext (Some 8),
        FalsySettled 0 1 5 (Inr False)]
      (DOMWorld ''about:blank'' 30000)) ! 0) = Fulfilled 5 \<and>
   waitTasks (run [SetContext (Some 7),
        NewWaitTask (PredicateString ''window.ready'') ''function'' (PollString ''raf'') 100 [],
        EvaluateSettled 0 1 (Some 0) (Inr 5), SetContext None, SetContext (Some 8),
        FalsySettled 0 1 5 (Inr False)]
      (DOMWorld ''about:blank'' 30000)) = [] \<and>
   pending (run [SetContext (Some 7),
        NewWaitTask (PredicateString ''window.ready'') ''function'' (PollString ''raf'') 100 [],
        EvaluateSettled 0 1 (Some 0) (Inr 5), SetContext None, SetContext (Some 8),
        FalsySettled 0 1 5 (Inr False)]
      (DOMWorld ''about:blank'' 30000)) = [AwaitEvaluate 0 2 (Some 1)]"
  by code_simp

subsection \<open>C2: errors of the evaluate call\<close>

text \<open>
  Claim C2.  Take a world that can be reached and the current run of a registered task, and
  let its \<open>try\<close> block end with the error \<open>e\<close>.  If the message of \<open>e\<close> contains
  \<open>Execution context was destroyed\<close> or \<open>Cannot find context with specified id\<close>, the run
  changes nothing: the task is neither resolved nor rejected and stays registered.  With any
  other error the promise of the task is rejected with exactly \<open>e\<close>, its timer is cleared,
  the task leaves the set, and no other task changes.
\<close>

theorem evaluate_error_classes:
  assumes "reachable w" and "t \<in> set (waitTasks w)" and "runCount (tasks w ! t) = n"
  shows "(str_includes (message e) ''Execution context was destroyed'' \<or>
          str_includes (message e) ''Cannot find context with specified id'' \<longrightarrow>
            rerun_resume t n (Inl e) w = w) \<and>
         (\<not> str_includes (message e) ''Execution context was destroyed'' \<and>
          \<not> str_includes (message e) ''Cannot find context with specified id'' \<longrightarrow>
            promise (tasks (rerun_resume t n (Inl e) w) ! t) = Rejected e \<and>
            timeoutTimer (tasks (rerun_resume t n (Inl e) w) ! t) = None \<and>
            waitTasks (rerun_resume t n (Inl e) w) = removeAll t (waitTasks w) \<and>
            t \<notin> set (waitTasks (rerun_resume t n (Inl e) w)) \<and>
            (\<forall>u. u \<noteq> t \<longrightarrow> tasks (rerun_resume t n (Inl e) w) ! u = tasks w ! u))"
proof -
  from assms(1) have "tasks_ok w" by (rule reachable_tasks_ok)
  with assms(2) have t: "t < length (tasks w)" "promise (tasks w ! t) = Pending"
    "\<not> terminated (tasks w ! t)" by (auto simp: tasks_ok_def)
  show ?thesis using t assms(3)
    by (auto simp: rerun_resume_def rerun_settle_def cleanup_def upd_task_def nth_upd)
qed

theorem evaluate_error_classes_witness:
  "reachable (run [SetContext (Some 7),
      NewWaitTask (PredicateString ''window.ready'') ''function'' (PollString ''raf'') 100 []]
      (DOMWorld ''about:blank'' 30000)) \<and>
   waitTasks (run [SetContext (Some 7),
      NewWaitTask (PredicateString ''window.ready'') ''function'' (PollString ''raf'') 100 []]
      (DOMWorld ''about:blank'' 30000)) = [0] \<and>
   runCount (tasks (run [SetContext (Some 7),
      NewWaitTask (PredicateString ''window.ready'') ''function'' (PollString ''raf'') 100 []]
      (DOMWorld ''about:blank'' 30000)) ! 0) = 1 \<and>
   rerun_resume 0 1 (Inl (Error ''Protocol error (Runtime.callFunctionOn): Execution context was destroyed.''))
     (run [SetContext (Some 7),
      NewWaitTask (PredicateString ''window.ready'') ''function'' (PollString ''raf'') 100 []]
      (DOMWorld ''about:blank'' 30000)) =
     run [SetContext (Some 7),
      NewWaitTask (PredicateString ''window.ready'') ''function'' (PollString ''raf'') 100 []]
      (DOMWorld ''about:blank'' 30000) \<and>
   promise (tasks (rerun_resume 0 1 (Inl (Error ''Evaluation failed: ReferenceError: ready is not defined''))
     (run [SetContext (Some 7),
      NewWaitTask (PredicateString ''window.ready'') ''function'' (PollString ''raf'') 100 []]
      (DOMWorld ''about:blank'' 30000))) ! 0) =
     Rejected (Error ''Evaluation failed: ReferenceError: ready is not defined'') \<and>
   waitTasks (rerun_resume 0 1 (Inl (Error ''Evaluation failed: ReferenceError: ready is not defined''))
     (run [SetContext (Some 7),
      NewWaitTask (PredicateString ''window.ready'') ''function'' (PollString ''raf'') 100 []]
      (DOMWorld ''about:blank'' 30000))) = []"
proof -
  let ?w = "run [SetContext (Some 7),
      NewWaitTask (PredicateString ''window.ready'') ''function'' (PollString ''raf'') 100 []]
      (DOMWorld ''about:blank'' 30000)"
  let ?e1 = "Error ''Protocol error (Runtime.callFunctionOn): Execution context was destroyed.''"
  let ?e2 = "Error ''Evaluation failed: ReferenceError: ready is not defined''"
  have r: "reachable ?w" by (rule reachable_run) (rule reachable.created)
  have wt: "waitTasks ?w = [0]" by code_simp
  then have m: "0 \<in> set (waitTasks ?w)" by simp
  have n: "runCount (tasks ?w ! 0) = 1" by code_simp
  have c1: "str_includes (message ?e1) ''Execution context was destroyed''" by code_simp
  have c2: "\<not> str_includes (message ?e2) ''Execution context was destroyed''"
    "\<not> str_includes (message ?e2) ''Cannot find context with specified id''" by code_simp+
  from evaluate_error_classes[OF r m n, of ?e1] c1
  have a: "rerun_resume 0 1 (Inl ?e1) ?w = ?w" by blast
  from evaluate_error_classes[OF r m n, of ?e2] c2
  have b: "promise (tasks (rerun_resume 0 1 (Inl ?e2) ?w) ! 0) = Rejected ?e2"
    "waitTasks (rerun_resume 0 1 (Inl ?e2) ?w) = removeAll 0 (waitTasks ?w)" by blast+
  from b(2) wt have "waitTasks (rerun_resume 0 1 (Inl ?e2) ?w) = []" by simp
  with r wt n a b(1) show ?thesis by blast
qed

subsection \<open>C3: a bind reruns every registered task\<close>

text \<open>
  Claim C3.  When \<open>_setContext(context)\<close> binds a context in a world that can be reached,
  \<open>rerun()\<close> is called once on each registered task: the run counter of every registered
  task goes up by exactly one and no other task changes.  The set holds no task twice, so
  with \<open>N\<close> registered tasks these are \<open>N\<close> runs; unless the world is detached, each of
  them is suspended on the context promise, one new entry per task and in the order of the
  set.  The context promise that suspended accessors hold was pending and is now fulfilled
  with that context.
\<close>

theorem bind_reruns_every_task:
  assumes "reachable w" and "setContext (Some c) w = Inr w'"
  shows "(\<forall>t \<in> set (waitTasks w). runCount (tasks w' ! t) = Suc (runCount (tasks w ! t))) \<and>
         (\<forall>t. t \<notin> set (waitTasks w) \<longrightarrow> tasks w' ! t = tasks w ! t) \<and>
         length (tasks w') = length (tasks w) \<and>
         distinct (waitTasks w) \<and>
         (\<not> detached w \<longrightarrow>
            pending w' = pending w @
              map (\<lambda>t. AwaitEvaluate t (Suc (runCount (tasks w ! t))) (contextPromise w))
                (waitTasks w)) \<and>
         (\<exists>p. contextPromise w = Some p \<and> promises w ! p = Pending \<and>
              promises w' ! p = Fulfilled c \<and> contextPromise w' = Some p)"
proof -
  from assms(1) have ok: "context_ok w" and tok: "tasks_ok w"
    by (rule reachable_context_ok, rule reachable_tasks_ok)
  from assms(2) obtain p where cb: "contextResolveCallback w = Some p"
    by (auto simp: setContext_def split: option.splits)
  let ?w0 = "w\<lparr>promises := (promises w)[p := fulfill c (promises w ! p)],
               contextResolveCallback := None\<rparr>"
  from assms(2) cb have w': "w' = fold rerun (waitTasks w) ?w0"
    by (simp add: setContext_def)
  have d: "distinct (waitTasks w)" and r: "\<forall>x \<in> set (waitTasks w). x < length (tasks ?w0)"
    using tok by (auto simp: tasks_ok_def)
  have 1: "\<forall>t \<in> set (waitTasks w). runCount (tasks w' ! t) = Suc (runCount (tasks w ! t))"
    using fold_rerun_runCount[OF d r] unfolding w' by simp
  have 2: "\<forall>t. t \<notin> set (waitTasks w) \<longrightarrow> tasks w' ! t = tasks w ! t"
    unfolding w' by (simp add: fold_rerun_other)
  have 3: "length (tasks w') = length (tasks w)"
    unfolding w' by (simp add: fold_rerun_length)
  have 4: "\<not> detached w \<longrightarrow>
            pending w' = pending w @
              map (\<lambda>t. AwaitEvaluate t (Suc (runCount (tasks w ! t))) (contextPromise w))
                (waitTasks w)"
    using fold_rerun_pending[OF d r] unfolding w' by simp
  from ok cb have p: "contextPromise w = Some p" "p < length (promises w)"
      "promises w ! p = Pending" by (auto simp: context_ok_def)
  from setContext_bind_fields[OF cb, of c] assms(2) have
    "promises w' = (promises w)[p := fulfill c (promises w ! p)]"
    "contextPromise w' = contextPromise w" by auto
  with p have 5: "\<exists>p. contextPromise w = Some p \<and> promises w ! p = Pending \<and>
              promises w' ! p = Fulfilled c \<and> contextPromise w' = Some p"
    by simp
  from 1 2 3 4 5 d show ?thesis by blast
qed

theorem bind_reruns_every_task_witness:
  "reachable (run [NewWaitTask (PredicateString ''window.a'') ''function'' (PollString ''raf'') 100 [],
                   NewWaitTask (PredicateString ''window.b'') ''function'' (PollString ''mutation'') 0 []]
               (DOMWorld ''about:blank'' 30000)) \<and>
   setContext (Some 7)
     (run [NewWaitTask (PredicateString ''window.a'') ''function'' (PollString ''raf'') 100 [],
           NewWaitTask (PredicateString ''window.b'') ''function'' (PollString ''mutation'') 0 []]
        (DOMWorld ''about:blank'' 30000)) =
     Inr (run [NewWaitTask (PredicateString ''window.a'') ''function'' (PollString ''raf'') 100 [],
               NewWaitTask (PredicateString ''window.b'') ''function'' (PollString ''mutation'') 0 [],
               SetContext (Some 7)]
            (DOMWorld ''about:blank'' 30000)) \<and>
   waitTasks (run [NewWaitTask (PredicateString ''window.a'') ''function'' (PollString ''raf'') 100 [],
                   NewWaitTask (PredicateString ''window.b'') ''function'' (PollString ''mutation'') 0 []]
               (DOMWorld ''about:blank'' 30000)) = [0, 1] \<and>
   map (\<lambda>k. runCount k)
     (tasks (run [NewWaitTask (PredicateString ''window.a'') ''function'' (PollString ''raf'') 100 [],
                  NewWaitTask (PredicateString ''window.b'') ''function'' (PollString ''mutation'') 0 [],
                  SetContext (Some 7)]
               (DOMWorld ''about:blank'' 30000))) = [2, 2] \<and>
   length (tasks (run [NewWaitTask (PredicateString ''window.a'') ''function'' (PollString ''raf'') 100 [],
                  NewWaitTask (PredicateString ''window.b'') ''function'' (PollString ''mutation'') 0 [],
                  SetContext (Some 7)]
               (DOMWorld ''about:blank'' 30000))) =
   length (tasks (run [NewWaitTask (PredicateString ''window.a'') ''function'' (PollString ''raf'') 100 [],
                   NewWaitTask (PredicateString ''window.b'') ''function'' (PollString ''mutation'') 0 []]
               (DOMWorld ''about:blank'' 30000)))"
proof -
  let ?w = "run [NewWaitTask (PredicateString ''window.a'') ''function'' (PollString ''raf'') 100 [],
                   NewWaitTask (PredicateString ''window.b'') ''function'' (PollString ''mutation'') 0 []]
               (DOMWorld ''about:blank'' 30000)"
  let ?w' = "run [NewWaitTask (PredicateString ''window.a'') ''function'' (PollString ''raf'') 100 [],
               NewWaitTask (PredicateString ''window.b'') ''function'' (PollString ''mutation'') 0 [],
               SetContext (Some 7)]
            (DOMWorld ''about:blank'' 30000)"
  have r: "reachable ?w" by (rule reachable_run) (rule reachable.created)
  have h: "setContext (Some 7) ?w = Inr ?w'" by code_simp
  have e: "waitTasks ?w = [0, 1]" "map (\<lambda>k. runCount k) (tasks ?w') = [2, 2]" by code_simp+
  from bind_reruns_every_task[OF r h] r h e show ?thesis by blast
qed

subsection \<open>C4: detaching a world\<close>

text \<open>Detaching rejects every registered task and leaves the set empty.\<close>

lemma detach_settles_all:
  assumes "reachable w"
  shows "waitTasks (detach w) = [] \<and> detached (detach w) \<and>
         (\<forall>t \<in> set (waitTasks w).
            promise (tasks (detach w) ! t) =
              Rejected (Error ''waitForFunction failed: frame got detached.''))"
proof -
  from assms have ok: "tasks_ok w" by (rule reachable_tasks_ok)
  have "set (waitTasks (detach w)) = {}"
    unfolding detach_def by (simp add: fold_terminate_waitTasks)
  then have 1: "waitTasks (detach w) = []" by simp
  have 2: "\<forall>t \<in> set (waitTasks w).
            promise (tasks (detach w) ! t) =
              Rejected (Error ''waitForFunction failed: frame got detached.'')"
  proof
    fix t assume t: "t \<in> set (waitTasks w)"
    with ok have "t < length (tasks w)" "promise (tasks w ! t) = Pending"
      by (auto simp: tasks_ok_def)
    then show "promise (tasks (detach w) ! t) =
              Rejected (Error ''waitForFunction failed: frame got detached.'')"
      unfolding detach_def using t by (intro fold_terminate_promise) simp_all
  qed
  from 1 2 show ?thesis by (simp add: detached_detach)
qed

text \<open>
  A task constructed in a detached world is rejected at once and does not stay in the set,
  provided the message of the detachment error, which holds the URL of the frame, does not
  read as the death of a context.
\<close>

lemma WaitTask_when_detached:
  assumes "reachable w" and "detached w"
    and "\<not> str_includes (message e) ''Execution context was destroyed''"
    and "\<not> str_includes (message e) ''Cannot find context with specified id''"
    and "executionContext w = Inl e"
    and "WaitTask body title poll ms as w = Inr (t, w')"
  shows "promise (tasks w' ! t) = Rejected e \<and> waitTasks w' = waitTasks w \<and>
         t \<notin> set (waitTasks w') \<and> timeoutTimer (tasks w' ! t) = None"
proof -
  from assms(1) have ok: "tasks_ok w" by (rule reachable_tasks_ok)
  then have fresh: "length (tasks w) \<notin> set (waitTasks w)" by (auto simp: tasks_ok_def)
  from assms(6) have t: "t = length (tasks w)"
    by (auto simp: WaitTask_def Let_def split: option.splits)
  from fresh have ra: "removeAll (length (tasks w)) (waitTasks w) = waitTasks w" by simp
  show ?thesis
    using assms(2,3,4,5,6) fresh ra
    by (auto simp: WaitTask_def Let_def prims nth_upd nth_append split: option.splits if_splits)
qed

text \<open>
  Claim C4 says that a wait request made after the world is detached fails at once and
  leaves no task in the set.  \<open>rerun\<close> sorts errors by the text of their message, and the
  message of the detachment error holds the URL of the frame.  A frame is loaded from
  \<open>data:text/html,Execution context was destroyed\<close> and detached; the task constructed
  afterwards is taken for one whose context died: it is not rejected and stays in the set.
\<close>

theorem wait_after_detach_stays_registered:
  "waitTasks (run [Detach,
       NewWaitTask (PredicateString ''window.ready'') ''function'' (PollString ''raf'') 0 []]
     (DOMWorld ''data:text/html,Execution context was destroyed'' 30000)) = [0] \<and>
   promise (tasks (run [Detach,
       NewWaitTask (PredicateString ''window.ready'') ''function'' (PollString ''raf'') 0 []]
     (DOMWorld ''data:text/html,Execution context was destroyed'' 30000)) ! 0) = Pending \<and>
   detached (run [Detach] (DOMWorld ''data:text/html,Execution context was destroyed'' 30000))"
  by code_simp

subsection \<open>C5: the timeout of a task\<close>

text \<open>
  Claim C5.  A task is constructed in a world that can be reached; any events follow; the
  timer of the task is still armed (a timer is armed only when the timeout is not zero, and
  it is cleared when the task settles).  Then the task is still pending, and when the timer
  fires the task is rejected with the \<open>TimeoutError\<close> whose message holds the title and the
  timeout, its timer is cleared and it leaves the set.  Whatever happens afterwards, its
  promise stays that rejection and the task stays out of the set; and an answer of
  \<open>evaluateHandle\<close> that arrives for it with a handle only has that handle disposed.
\<close>

theorem timeout_settles_once:
  assumes "reachable w"
    and "WaitTask body title poll ms as w = Inr (t, w1)"
    and "timeoutTimer (tasks (run es w1) ! t) \<noteq> None"
  shows "promise (tasks (run es w1) ! t) = Pending \<and>
         promise (tasks (step (TimerFired t) (run es w1)) ! t) =
           Rejected (TimeoutError (''waiting for '' @ title @ '' failed: timeout '' @
                       numberToString ms @ ''ms exceeded'')) \<and>
         timeoutTimer (tasks (step (TimerFired t) (run es w1)) ! t) = None \<and>
         t \<notin> set (waitTasks (step (TimerFired t) (run es w1))) \<and>
         (\<forall>es'. promise (tasks (run es' (step (TimerFired t) (run es w1))) ! t) =
                  Rejected (TimeoutError (''waiting for '' @ title @ '' failed: timeout '' @
                       numberToString ms @ ''ms exceeded'')) \<and>
                t \<notin> set (waitTasks (run es' (step (TimerFired t) (run es w1)))) \<and>
                (\<forall>n p h. AwaitEvaluate t n p \<in> set (pending (run es' (step (TimerFired t) (run es w1)))) \<and>
                         evaluate_ready (run es' (step (TimerFired t) (run es w1))) p (Inr h) \<longrightarrow>
                   step (EvaluateSettled t n p (Inr h)) (run es' (step (TimerFired t) (run es w1))) =
                     dispose h ((run es' (step (TimerFired t) (run es w1)))
                       \<lparr>pending := remove1 (AwaitEvaluate t n p)
                          (pending (run es' (step (TimerFired t) (run es w1))))\<rparr>)))"
proof -
  define e where "e = TimeoutError (''waiting for '' @ title @ '' failed: timeout '' @
                       numberToString ms @ ''ms exceeded'')"
  define w2 where "w2 = run es w1"
  define w3 where "w3 = step (TimerFired t) w2"
  have r1: "reachable w1"
    using reachable.stepped[OF assms(1), of "NewWaitTask body title poll ms as"] assms(2)
    by simp
  then have r2: "reachable w2" unfolding w2_def by (rule reachable_run)
  then have r3: "reachable w3" unfolding w3_def by (rule reachable.stepped)
  from WaitTask_new_task[OF assms(2)] have t1: "t < length (tasks w1)"
    and tm1: "timeoutTimer (tasks w1 ! t) = None \<or> timeoutTimer (tasks w1 ! t) = Some e"
    by (auto simp: timeoutMessage_def e_def)
  have wl: "world_later w1 w2" unfolding w2_def by (rule world_later_run)
  with t1 have t2: "t < length (tasks w2)" and tl: "task_later (tasks w1 ! t) (tasks w2 ! t)"
    by (auto simp: world_later_def)
  from assms(3) have "timeoutTimer (tasks w2 ! t) \<noteq> None" by (simp add: w2_def)
  with tl tm1 have tm2: "timeoutTimer (tasks w2 ! t) = Some e"
    by (auto simp: task_later_def)
  from timer_fires[OF reachable_tasks_ok[OF r2] t2 tm2]
  have f: "promise (tasks w2 ! t) = Pending" "promise (tasks w3 ! t) = Rejected e"
    "terminated (tasks w3 ! t)" "timeoutTimer (tasks w3 ! t) = None"
    "t \<notin> set (waitTasks w3)" unfolding w3_def by blast+
  have t3: "t < length (tasks w3)"
    using world_later_step[of w2 "TimerFired t"] t2 by (auto simp: world_later_def w3_def)
  have after: "promise (tasks (run es' w3) ! t) = Rejected e \<and>
                t \<notin> set (waitTasks (run es' w3)) \<and> terminated (tasks (run es' w3) ! t)" for es'
  proof -
    have "task_later (tasks w3 ! t) (tasks (run es' w3) ! t)"
      using world_later_run[of w3 es'] t3 by (auto simp: world_later_def)
    with f have a: "promise (tasks (run es' w3) ! t) = Rejected e"
      "terminated (tasks (run es' w3) ! t)" by (auto simp: task_later_def)
    have "tasks_ok (run es' w3)" by (rule reachable_tasks_ok[OF reachable_run[OF r3]])
    then have "t \<notin> set (waitTasks (run es' w3))"
      by (rule settled_not_registered) (simp add: a)
    with a show ?thesis by simp
  qed
  have late: "AwaitEvaluate t n p \<in> set (pending (run es' w3)) \<and>
                         evaluate_ready (run es' w3) p (Inr h) \<longrightarrow>
                   step (EvaluateSettled t n p (Inr h)) (run es' w3) =
                     dispose h ((run es' w3)
                       \<lparr>pending := remove1 (AwaitEvaluate t n p) (pending (run es' w3))\<rparr>)"
    for es' n p h
    using after[of es'] by (simp add: rerun_resume_def)
  from f after late show ?thesis unfolding w3_def w2_def e_def by blast
qed

theorem timeout_settles_once_witness:
  "reachable (run [SetContext (Some 7)] (DOMWorld ''about:blank'' 30000)) \<and>
   WaitTask (PredicateString ''window.ready'') ''function'' (PollString ''raf'') 100 []
       (run [SetContext (Some 7)] (DOMWorld ''about:blank'' 30000)) =
     Inr (0, run [SetContext (Some 7),
                  NewWaitTask (PredicateString ''window.ready'') ''function'' (PollString ''raf'') 100 []]
               (DOMWorld ''about:blank'' 30000)) \<and>
   timeoutTimer (tasks (run [] (run [SetContext (Some 7),
                  NewWaitTask (PredicateString ''window.ready'') ''function'' (PollString ''raf'') 100 []]
               (DOMWorld ''about:blank'' 30000))) ! 0) \<noteq> None \<and>
   promise (tasks (step (TimerFired 0) (run [] (run [SetContext (Some 7),
                  NewWaitTask (PredicateString ''window.ready'') ''function'' (PollString ''raf'') 100 []]
               (DOMWorld ''about:blank'' 30000)))) ! 0) =
     Rejected (TimeoutError ''waiting for function failed: timeout 100ms exceeded'') \<and>
   0 \<notin> set (waitTasks (step (TimerFired 0) (run [] (run [SetContext (Some 7),
                  NewWaitTask (PredicateString ''window.ready'') ''function'' (PollString ''raf'') 100 []]
               (DOMWorld ''about:blank'' 30000))))) \<and>
   promise (tasks (run [EvaluateSettled 0 1 (Some 0) (Inr 5)]
      (step (TimerFired 0) (run [] (run [SetContext (Some 7),
                  NewWaitTask (PredicateString ''window.ready'') ''function'' (PollString ''raf'') 100 []]
               (DOMWorld ''about:blank'' 30000))))) ! 0) =
     Rejected (TimeoutError ''waiting for function failed: timeout 100ms exceeded'') \<and>
   disposed (run [EvaluateSettled 0 1 (Some 0) (Inr 5)]
      (step (TimerFired 0) (run [] (run [SetContext (Some 7),
                  NewWaitTask (PredicateString ''window.ready'') ''function'' (PollString ''raf'') 100 []]
               (DOMWorld ''about:blank'' 30000))))) = [5]"
proof -
  let ?w = "run [SetContext (Some 7)] (DOMWorld ''about:blank'' 30000)"
  let ?w1 = "run [SetContext (Some 7),
                  NewWaitTask (PredicateString ''window.ready'') ''function'' (PollString ''raf'') 100 []]
               (DOMWorld ''about:blank'' 30000)"
  have r: "reachable ?w" by (rule reachable_run) (rule reachable.created)
  have c: "WaitTask (PredicateString ''window.ready'') ''function'' (PollString ''raf'') 100 [] ?w =
     Inr (0, ?w1)" by code_simp
  have tm: "timeoutTimer (tasks (run [] ?w1) ! 0) \<noteq> None" by code_simp
  have m: "''waiting for '' @ ''function'' @ '' failed: timeout '' @ numberToString 100 @ ''ms exceeded''
      = ''waiting for function failed: timeout 100ms exceeded''" by code_simp
  have d: "disposed (run [EvaluateSettled 0 1 (Some 0) (Inr 5)]
      (step (TimerFired 0) (run [] ?w1))) = [5]" by code_simp
  from timeout_settles_once[OF r c tm]
  have a: "promise (tasks (step (TimerFired 0) (run [] ?w1)) ! 0) =
        Rejected (TimeoutError (''waiting for '' @ ''function'' @ '' failed: timeout '' @
                       numberToString 100 @ ''ms exceeded''))"
    "0 \<notin> set (waitTasks (step (TimerFired 0) (run [] ?w1)))"
    "promise (tasks (run [EvaluateSettled 0 1 (Some 0) (Inr 5)] (step (TimerFired 0) (run [] ?w1))) ! 0) =
        Rejected (TimeoutError (''waiting for '' @ ''function'' @ '' failed: timeout '' @
                       numberToString 100 @ ''ms exceeded''))"
    by blast+
  show ?thesis using r c tm a d unfolding m by blast
qed

subsection \<open>C6: the empty sentinel\<close>

text \<open>
  Claim C6.  A run got a handle from \<open>evaluateHandle\<close> and waits for
  \<open>evaluate((s) => !s, success).catch(() => true)\<close>.  When that yields \<open>true\<close> (the handle is
  of a falsy value, or the evaluation failed and \<open>catch\<close> supplied \<open>true\<close>), the run disposes
  the handle and ends: no task changes, so the task is neither resolved nor rejected, and it
  stays in the set.
\<close>

theorem falsy_sentinel_is_a_miss:
  assumes "AwaitFalsy t n h \<in> set (pending w)" and "oc = Inr True \<or> (\<exists>e. oc = Inl e)"
  shows "step (FalsySettled t n h oc) w =
           dispose h (w\<lparr>pending := remove1 (AwaitFalsy t n h) (pending w)\<rparr>) \<and>
         tasks (step (FalsySettled t n h oc) w) = tasks w \<and>
         waitTasks (step (FalsySettled t n h oc) w) = waitTasks w \<and>
         disposed (step (FalsySettled t n h oc) w) = h # disposed w"
  using assms by (auto simp: rerun_falsy_def dispose_def)

theorem falsy_sentinel_is_a_miss_witness:
  "AwaitFalsy 0 1 5 \<in> set (pending (run [SetContext (Some 7),
      NewWaitTask (PredicateString ''window.ready'') ''function'' (PollString ''raf'') 100 [],
      EvaluateSettled 0 1 (Some 0) (Inr 5)] (DOMWorld ''about:blank'' 30000))) \<and>
   disposed (step (FalsySettled 0 1 5 (Inr True)) (run [SetContext (Some 7),
      NewWaitTask (PredicateString ''window.ready'') ''function'' (PollString ''raf'') 100 [],
      EvaluateSettled 0 1 (Some 0) (Inr 5)] (DOMWorld ''about:blank'' 30000))) = [5] \<and>
   promise (tasks (step (FalsySettled 0 1 5 (Inr True)) (run [SetContext (Some 7),
      NewWaitTask (PredicateString ''window.ready'') ''function'' (PollString ''raf'') 100 [],
      EvaluateSettled 0 1 (Some 0) (Inr 5)] (DOMWorld ''about:blank'' 30000))) ! 0) = Pending \<and>
   waitTasks (step (FalsySettled 0 1 5 (Inr True)) (run [SetContext (Some 7),
      NewWaitTask (PredicateString ''window.ready'') ''function'' (PollString ''raf'') 100 [],
      EvaluateSettled 0 1 (Some 0) (Inr 5)] (DOMWorld ''about:blank'' 30000))) = [0]"
proof -
  let ?w = "run [SetContext (Some 7),
      NewWaitTask (PredicateString ''window.ready'') ''function'' (PollString ''raf'') 100 [],
      EvaluateSettled 0 1 (Some 0) (Inr 5)] (DOMWorld ''about:blank'' 30000)"
  have h: "AwaitFalsy 0 1 5 \<in> set (pending ?w)" by code_simp
  have e: "disposed ?w = []" "promise (tasks ?w ! 0) = Pending" "waitTasks ?w = [0]"
    by code_simp+
  have "(Inr True :: error + bool) = Inr True \<or> (\<exists>e. (Inr True :: error + bool) = Inl e)" by simp
  from falsy_sentinel_is_a_miss[OF h this]
  have c: "tasks (step (FalsySettled 0 1 5 (Inr True)) ?w) = tasks ?w"
    "waitTasks (step (FalsySettled 0 1 5 (Inr True)) ?w) = waitTasks ?w"
    "disposed (step (FalsySettled 0 1 5 (Inr True)) ?w) = 5 # disposed ?w" by blast+
  show ?thesis by (simp only: c e h)
qed

subsection \<open>C7: the context accessor\<close>

text \<open>
  Claim C7 says that \<open>executionContext()\<close> fails with a detachment error also when the
  world is detached while the accessor is suspended.  It does not: \<open>_detach\<close> leaves the
  context promise as it is.  Here an accessor gets promise 0 of a new world, which is pending;
  after \<open>_detach()\<close> the promise is still pending, and a later bind fulfils it.
\<close>

theorem suspended_accessor_survives_detach_counterexample:
  "executionContext (DOMWorld ''about:blank'' 30000) = Inr (Some 0) \<and>
   promises (DOMWorld ''about:blank'' 30000) ! 0 = Pending \<and>
   promises (step Detach (DOMWorld ''about:blank'' 30000)) ! 0 = Pending \<and>
   promises (run [Detach, SetContext (Some 7)] (DOMWorld ''about:blank'' 30000)) ! 0 = Fulfilled 7"
  by code_simp

text \<open>
  Claim C7, amended.  In a world that can be reached, \<open>executionContext()\<close> throws the
  detachment error when the world is detached at the call; otherwise it returns the current
  context promise, which is fulfilled when a context is bound and pending when the slot is
  empty.  \<open>_detach()\<close> settles no context promise, and no context promise is ever rejected:
  an accessor that is suspended when the world is detached stays pending until a later bind.
\<close>

theorem accessor_behaviour:
  assumes "reachable w"
  shows "(detached w \<longrightarrow>
            executionContext w =
              Inl (Error (''Execution Context is not available in detached frame '' @ [CHR 0x22]
                     @ frame_url w @ [CHR 0x22] @ '' (are you trying to evaluate?)''))) \<and>
         (\<not> detached w \<longrightarrow>
            (\<exists>p. executionContext w = Inr (Some p) \<and> p < length (promises w) \<and>
                 (hasContext w \<longrightarrow> (\<exists>c. promises w ! p = Fulfilled c)) \<and>
                 (\<not> hasContext w \<longrightarrow> promises w ! p = Pending))) \<and>
         promises (detach w) = promises w \<and>
         contextPromise (detach w) = contextPromise w \<and>
         (\<forall>p e. p < length (promises w) \<longrightarrow> promises w ! p \<noteq> Rejected e)"
proof -
  from assms have ok: "context_ok w" by (rule reachable_context_ok)
  from assms have nr: "never_rejected w" by (rule reachable_never_rejected)
  have 1: "\<not> detached w \<longrightarrow>
            (\<exists>p. executionContext w = Inr (Some p) \<and> p < length (promises w) \<and>
                 (hasContext w \<longrightarrow> (\<exists>c. promises w ! p = Fulfilled c)) \<and>
                 (\<not> hasContext w \<longrightarrow> promises w ! p = Pending))"
    using ok by (auto simp: context_ok_def executionContext_def hasContext_def)
  have 2: "\<forall>p e. p < length (promises w) \<longrightarrow> promises w ! p \<noteq> Rejected e"
    using nr by (simp add: never_rejected_def)
  from 1 2 show ?thesis
    by (simp add: executionContext_def promises_detach contextPromise_detach)
qed

theorem accessor_behaviour_witness:
  "reachable (run [SetContext (Some 7)] (DOMWorld ''about:blank'' 30000)) \<and>
   \<not> detached (run [SetContext (Some 7)] (DOMWorld ''about:blank'' 30000)) \<and>
   hasContext (run [SetContext (Some 7)] (DOMWorld ''about:blank'' 30000)) \<and>
   executionContext (run [SetContext (Some 7)] (DOMWorld ''about:blank'' 30000)) = Inr (Some 0) \<and>
   promises (run [SetContext (Some 7)] (DOMWorld ''about:blank'' 30000)) ! 0 = Fulfilled 7 \<and>
   promises (detach (run [SetContext (Some 7)] (DOMWorld ''about:blank'' 30000))) =
     promises (run [SetContext (Some 7)] (DOMWorld ''about:blank'' 30000))"
proof -
  let ?w = "run [SetContext (Some 7)] (DOMWorld ''about:blank'' 30000)"
  have r: "reachable ?w" by (rule reachable_run) (rule reachable.created)
  have h: "\<not> detached ?w" "hasContext ?w" "executionContext ?w = Inr (Some 0)"
    "promises ?w ! 0 = Fulfilled 7" by code_simp+
  from accessor_behaviour[OF r] h r show ?thesis by blast
qed

subsection \<open>C8: the document cache\<close>

text \<open>
  Claim C8 says that the cached document promise is empty after any bind.  It is
  \<open>_setContext(null)\<close> that clears it; a bind leaves it alone.  Here \<open>_document()\<close> is
  called in a new, unbound world and the world is then bound: the cache is still set.
\<close>

theorem bind_keeps_document_cache_counterexample:
  "documentPromise (run [Document, SetContext (Some 7)] (DOMWorld ''about:blank'' 30000)) = Some 0"
  by code_simp

text \<open>
  Claim C8, amended.  In a world that can be reached, \<open>_setContext(null)\<close> empties the
  document cache and a bind leaves it unchanged; a cached document promise is always chained
  on the current context promise.  So after a bind to \<open>c\<close>, whatever promise \<open>_document()\<close>
  returns evaluates \<open>document\<close> in \<open>c\<close>, never in an earlier context.
\<close>

theorem document_cache_follows_context_promise:
  assumes "reachable w"
  shows "(\<exists>w'. setContext None w = Inr w' \<and> documentPromise w' = None) \<and>
         (\<forall>c w'. setContext (Some c) w = Inr w' \<longrightarrow>
            documentPromise w' = documentPromise w \<and>
            (\<forall>d. fst (document w') = Inr d \<longrightarrow> document_context w' d = Some c)) \<and>
         (\<forall>d. documentPromise w = Some d \<longrightarrow> contextPromise w = Some d)"
proof -
  from assms have ok: "context_ok w" by (rule reachable_context_ok)
  have 1: "\<exists>w'. setContext None w = Inr w' \<and> documentPromise w' = None"
    by (simp add: setContext_def)
  have 3: "\<forall>d. documentPromise w = Some d \<longrightarrow> contextPromise w = Some d"
    using ok by (auto simp: context_ok_def)
  have 2: "\<forall>c w'. setContext (Some c) w = Inr w' \<longrightarrow>
            documentPromise w' = documentPromise w \<and>
            (\<forall>d. fst (document w') = Inr d \<longrightarrow> document_context w' d = Some c)"
  proof (intro allI impI)
    fix c w' assume b: "setContext (Some c) w = Inr w'"
    then obtain p where cb: "contextResolveCallback w = Some p"
      by (auto simp: setContext_def split: option.splits)
    from setContext_bind_fields[OF cb, of c] b have f:
      "promises w' = (promises w)[p := fulfill c (promises w ! p)]"
      "contextPromise w' = contextPromise w" "documentPromise w' = documentPromise w"
      by auto
    from ok cb have p: "contextPromise w = Some p" "p < length (promises w)"
      "promises w ! p = Pending" by (auto simp: context_ok_def)
    have dc: "document_context w' p = Some c"
      using f p by (simp add: document_context_def)
    have "\<forall>d. fst (document w') = Inr d \<longrightarrow> d = p"
      using f p 3 by (auto simp: document_def executionContext_def split: option.splits if_splits)
    with dc f show "documentPromise w' = documentPromise w \<and>
            (\<forall>d. fst (document w') = Inr d \<longrightarrow> document_context w' d = Some c)"
      by auto
  qed
  from 1 2 3 show ?thesis by blast
qed

theorem document_cache_follows_context_promise_witness:
  "reachable (run [Document] (DOMWorld ''about:blank'' 30000)) \<and>
   setContext (Some 7) (run [Document] (DOMWorld ''about:blank'' 30000)) =
     Inr (run [Document, SetContext (Some 7)] (DOMWorld ''about:blank'' 30000)) \<and>
   documentPromise (run [Document, SetContext (Some 7)] (DOMWorld ''about:blank'' 30000)) =
     documentPromise (run [Document] (DOMWorld ''about:blank'' 30000)) \<and>
   fst (document (run [Document, SetContext (Some 7)] (DOMWorld ''about:blank'' 30000))) = Inr 0 \<and>
   document_context (run [Document, SetContext (Some 7)] (DOMWorld ''about:blank'' 30000)) 0 = Some 7"
proof -
  let ?w = "run [Document] (DOMWorld ''about:blank'' 30000)"
  let ?w' = "run [Document, SetContext (Some 7)] (DOMWorld ''about:blank'' 30000)"
  have r: "reachable ?w" by (rule reachable_run) (rule reachable.created)
  have h: "setContext (Some 7) ?w = Inr ?w'" "fst (document ?w') = Inr 0" by code_simp+
  from document_cache_follows_context_promise[OF r] h r show ?thesis by blast
qed

subsection \<open>C9: the poll loop in the page\<close>

text \<open>
  Claim C9 says that every invocation of the loop is fulfilled exactly once, and that the
  mutation strategy evaluates again and fulfils on timeout.  The timer of the loop only sets
  the flag \<open>timedOut\<close>; the mutation strategy reads the flag in the callback of its
  observer.  Here the first evaluation is falsy, the timer fires and no mutation follows:
  the promise is pending and the observer still connected.
\<close>

theorem mutation_loop_ignores_timeout_counterexample:
  "result (poll_run [TimeoutElapsed]
     (waitForPredicatePageFunction (PollString ''mutation'') 100 (Inr (JSBoolean False)))) = Pending \<and>
   timedOut (poll_run [TimeoutElapsed]
     (waitForPredicatePageFunction (PollString ''mutation'') 100 (Inr (JSBoolean False)))) \<and>
   observing (poll_run [TimeoutElapsed]
     (waitForPredicatePageFunction (PollString ''mutation'') 100 (Inr (JSBoolean False))))"
  by code_simp

text \<open>
  Claim C9, amended.  Take any state that an invocation with one of the three strategies
  reaches.  Its promise is fulfilled only with a truthy value of the predicate or, with the
  flag set, with the empty sentinel; it is rejected only with the error of the first
  evaluation, never for the timeout; once settled it does not change.  The timer firing
  settles nothing and leaves the observer connected.  It is the next callback (a frame, an
  interval, a batch of mutations) that fulfils a pending promise: with the sentinel when the
  flag is set, with the value when the flag is not set and the predicate is truthy; after
  either no callback is scheduled and the observer is disconnected.
\<close>

theorem poll_loop_settles_at_most_once:
  assumes "check_polling poll = None"
    and "s = poll_run es (waitForPredicatePageFunction poll ms first)"
  shows "(\<forall>v. result s = Fulfilled v \<longrightarrow> truthy v \<or> (v = JSUndefined \<and> timedOut s)) \<and>
         (\<forall>e. result s = Rejected e \<longrightarrow> first = Inl e) \<and>
         (\<forall>ev. result s \<noteq> Pending \<longrightarrow> result (poll_step ev s) = result s) \<and>
         result (poll_step TimeoutElapsed s) = result s \<and>
         observing (poll_step TimeoutElapsed s) = observing s \<and>
         (\<forall>outcome. result s = Pending \<and> timedOut s \<and> (scheduled s \<or> observing s) \<longrightarrow>
            result (poll_step (Callback outcome) s) = Fulfilled JSUndefined \<and>
            \<not> observing (poll_step (Callback outcome) s) \<and>
            \<not> scheduled (poll_step (Callback outcome) s)) \<and>
         (\<forall>v. result s = Pending \<and> \<not> timedOut s \<and> (scheduled s \<or> observing s) \<and> truthy v \<longrightarrow>
            result (poll_step (Callback (Inr v)) s) = Fulfilled v \<and>
            \<not> observing (poll_step (Callback (Inr v)) s) \<and>
            \<not> scheduled (poll_step (Callback (Inr v)) s))"
proof -
  have ok: "poll_ok first s"
    unfolding assms(2) by (rule poll_ok_run) (rule poll_ok_start[OF assms(1)])
  have "strategy s = poll"
    unfolding assms(2) by (simp add: strategy_run strategy_start)
  with valid_polling[OF assms(1)] have st:
    "strategy s = PollString ''raf'' \<or> strategy s = PollString ''mutation'' \<or>
         (\<exists>i. strategy s = PollNumber i)" by simp
  have mode: "poll_mode_ok s"
    unfolding assms(2) by (rule poll_mode_ok_run[OF assms(1)])
  have 1: "\<forall>v. result s = Fulfilled v \<longrightarrow> truthy v \<or> (v = JSUndefined \<and> timedOut s)"
    and 2: "\<forall>e. result s = Rejected e \<longrightarrow> first = Inl e"
    using ok by (auto simp: poll_ok_def)
  have 3: "\<forall>ev. result s \<noteq> Pending \<longrightarrow> result (poll_step ev s) = result s"
    by (simp add: settled_step)
  have 4: "result (poll_step TimeoutElapsed s) = result s \<and>
         observing (poll_step TimeoutElapsed s) = observing s" by simp
  have 5: "\<forall>outcome. result s = Pending \<and> timedOut s \<and> (scheduled s \<or> observing s) \<longrightarrow>
            result (poll_step (Callback outcome) s) = Fulfilled JSUndefined \<and>
            \<not> observing (poll_step (Callback outcome) s) \<and>
            \<not> scheduled (poll_step (Callback outcome) s)"
    using callback_after_timeout[OF mode st] by blast
  have 6: "\<forall>v. result s = Pending \<and> \<not> timedOut s \<and> (scheduled s \<or> observing s) \<and> truthy v \<longrightarrow>
            result (poll_step (Callback (Inr v)) s) = Fulfilled v \<and>
            \<not> observing (poll_step (Callback (Inr v)) s) \<and>
            \<not> scheduled (poll_step (Callback (Inr v)) s)"
    using callback_with_success[OF mode st] by blast
  from 1 2 3 4 5 6 show ?thesis by blast
qed

theorem poll_loop_settles_at_most_once_witness:
  "check_polling (PollString ''mutation'') = None \<and>
   result (poll_run [Callback (Inr (JSBoolean False)), TimeoutElapsed]
     (waitForPredicatePageFunction (PollString ''mutation'') 100 (Inr JSNull))) = Pending \<and>
   timedOut (poll_run [Callback (Inr (JSBoolean False)), TimeoutElapsed]
     (waitForPredicatePageFunction (PollString ''mutation'') 100 (Inr JSNull))) \<and>
   observing (poll_run [Callback (Inr (JSBoolean False)), TimeoutElapsed]
     (waitForPredicatePageFunction (PollString ''mutation'') 100 (Inr JSNull))) \<and>
   result (poll_step (Callback (Inr (JSObject 1)))
     (poll_run [Callback (Inr (JSBoolean False)), TimeoutElapsed]
       (waitForPredicatePageFunction (PollString ''mutation'') 100 (Inr JSNull)))) =
     Fulfilled JSUndefined \<and>
   \<not> observing (poll_step (Callback (Inr (JSObject 1)))
     (poll_run [Callback (Inr (JSBoolean False)), TimeoutElapsed]
       (waitForPredicatePageFunction (PollString ''mutation'') 100 (Inr JSNull))))"
proof -
  let ?s = "poll_run [Callback (Inr (JSBoolean False)), TimeoutElapsed]
     (waitForPredicatePageFunction (PollString ''mutation'') 100 (Inr JSNull))"
  have v: "check_polling (PollString ''mutation'') = None" by code_simp
  have h: "result ?s = Pending" "timedOut ?s" "observing ?s" by code_simp+
  from poll_loop_settles_at_most_once[OF v refl, of "[Callback (Inr (JSBoolean False)), TimeoutElapsed]" 100 "Inr JSNull"]
  have "\<forall>outcome. result ?s = Pending \<and> timedOut ?s \<and> (scheduled ?s \<or> observing ?s) \<longrightarrow>
            result (poll_step (Callback outcome) ?s) = Fulfilled JSUndefined \<and>
            \<not> observing (poll_step (Callback outcome) ?s) \<and>
            \<not> scheduled (poll_step (Callback outcome) ?s)" by blast
  with h have "result (poll_step (Callback (Inr (JSObject 1))) ?s) = Fulfilled JSUndefined \<and>
            \<not> observing (poll_step (Callback (Inr (JSObject 1))) ?s)" by blast
  with v h show ?thesis by blast
qed

subsection \<open>C10: a bind needs an empty slot\<close>

text \<open>
  Claim C10.  In every world that can be reached, \<open>_contextResolveCallback\<close> is null
  (\<open>_hasContext()\<close>) exactly when the current context promise is fulfilled.
  \<open>_setContext(context)\<close> calls the callback without a test: in a bound world the call is on
  null, throws a \<open>TypeError\<close> and rebinds nothing; in an unbound world it succeeds and sets
  the callback to null, so a second bind right after it throws.  After \<open>_setContext(null)\<close>
  the next bind succeeds.
\<close>

theorem bind_needs_unbound_slot:
  assumes "reachable w"
  shows "(hasContext w \<longleftrightarrow>
            (\<exists>p c. contextPromise w = Some p \<and> promises w ! p = Fulfilled c)) \<and>
         (hasContext w \<longrightarrow>
            setContext (Some c) w = Inl (TypeError ''Cannot read property call of null'') \<and>
            step (SetContext (Some c)) w = w) \<and>
         (\<not> hasContext w \<longrightarrow>
            (\<exists>w'. setContext (Some c) w = Inr w' \<and> hasContext w' \<and>
                  setContext (Some c') w' = Inl (TypeError ''Cannot read property call of null''))) \<and>
         (\<exists>w'. setContext None w = Inr w' \<and> \<not> hasContext w' \<and>
               (\<exists>w''. setContext (Some c) w' = Inr w'' \<and> hasContext w''))"
proof -
  from assms have ok: "context_ok w" by (rule reachable_context_ok)
  have 1: "hasContext w \<longleftrightarrow> (\<exists>p c. contextPromise w = Some p \<and> promises w ! p = Fulfilled c)"
    using ok by (cases "contextResolveCallback w") (auto simp: context_ok_def hasContext_def)
  have 2: "hasContext w \<longrightarrow>
            setContext (Some c) w = Inl (TypeError ''Cannot read property call of null'') \<and>
            step (SetContext (Some c)) w = w"
    by (simp add: hasContext_def setContext_def)
  have 3: "\<not> hasContext w \<longrightarrow>
            (\<exists>w'. setContext (Some c) w = Inr w' \<and> hasContext w' \<and>
                  setContext (Some c') w' = Inl (TypeError ''Cannot read property call of null''))"
  proof
    assume "\<not> hasContext w"
    then obtain p where "contextResolveCallback w = Some p" by (auto simp: hasContext_def)
    from setContext_bind_fields[OF this, of c] obtain w' where
      "setContext (Some c) w = Inr w'" "contextResolveCallback w' = None" by blast
    then show "\<exists>w'. setContext (Some c) w = Inr w' \<and> hasContext w' \<and>
                  setContext (Some c') w' = Inl (TypeError ''Cannot read property call of null'')"
      by (simp add: hasContext_def setContext_def)
  qed
  have 4: "\<exists>w'. setContext None w = Inr w' \<and> \<not> hasContext w' \<and>
               (\<exists>w''. setContext (Some c) w' = Inr w'' \<and> hasContext w'')"
  proof -
    let ?w' = "w\<lparr>documentPromise := None,
                 contextPromise := Some (length (promises w)),
                 contextResolveCallback := Some (length (promises w)),
                 promises := promises w @ [Pending]\<rparr>"
    have a: "setContext None w = Inr ?w'" by (simp add: setContext_def)
    have b: "contextResolveCallback ?w' = Some (length (promises w))" by simp
    from setContext_bind_fields[OF b, of c] obtain w'' where
      "setContext (Some c) ?w' = Inr w''" "contextResolveCallback w'' = None" by blast
    with a b show ?thesis by (auto simp: hasContext_def)
  qed
  from 1 2 3 4 show ?thesis by blast
qed

theorem bind_needs_unbound_slot_witness:
  "reachable (run [SetContext (Some 7)] (DOMWorld ''about:blank'' 30000)) \<and>
   hasContext (run [SetContext (Some 7)] (DOMWorld ''about:blank'' 30000)) \<and>
   setContext (Some 8) (run [SetContext (Some 7)] (DOMWorld ''about:blank'' 30000)) =
     Inl (TypeError ''Cannot read property call of null'') \<and>
   step (SetContext (Some 8)) (run [SetContext (Some 7)] (DOMWorld ''about:blank'' 30000)) =
     run [SetContext (Some 7)] (DOMWorld ''about:blank'' 30000)"
proof -
  let ?w = "run [SetContext (Some 7)] (DOMWorld ''about:blank'' 30000)"
  have r: "reachable ?w" by (rule reachable_run) (rule reachable.created)
  have h: "hasContext ?w" by code_simp
  from bind_needs_unbound_slot[OF r, of 8] h r show ?thesis by blast
qed

end
